theory Spec2Isabelle
  imports Main "HOL-Library.Word"
begin

section \<open>Modular polynomials (pdd)\<close>

text \<open>
  The matcher of \<^verbatim>\<open>forbidden_intervals.cpp\<close> works on polynomials over
  bit-vectors of one fixed width \<open>N\<close>.  A value of the domain is an \<open>'a word\<close> with
  \<open>N = LENGTH('a)\<close>; the rationals of the source (\<^verbatim>\<open>rational\<close>) are \<open>int\<close>,
  with every \<^verbatim>\<open>mod(_, pow2)\<close> of the source written out.
\<close>

type_synonym pvar = nat

text \<open>
  Modelled from the spec: the polynomial library (\<^verbatim>\<open>dd::pdd\<close>, \<^verbatim>\<open>dd::pdd_manager\<close>) is
  not part of the sources at hand.  A polynomial is a decision diagram: a leaf carries a
  value modulo \<open>2^N\<close>, and \<open>Node x lo hi\<close> stands for \<open>x * hi + lo\<close>.
\<close>

datatype 'w pdd = Val 'w | Node pvar "'w pdd" "'w pdd"

fun eval :: "(pvar \<Rightarrow> 'a::len word) \<Rightarrow> 'a word pdd \<Rightarrow> 'a word" where
  "eval \<sigma> (Val c) = c"
| "eval \<sigma> (Node x lo hi) = \<sigma> x * eval \<sigma> hi + eval \<sigma> lo"

fun is_val :: "'a word pdd \<Rightarrow> bool" where
  "is_val (Val c) = True"
| "is_val (Node x lo hi) = False"

text \<open>
  Modelled from the spec: \<^verbatim>\<open>pdd::val()\<close>, the value of a constant polynomial as a
  number in \<open>[0, 2^N)\<close>; the source asserts \<^verbatim>\<open>is_val()\<close> before it reads the value.
\<close>

fun val :: "'a::len word pdd \<Rightarrow> int" where
  "val (Val c) = uint c"
| "val (Node x lo hi) = 0"

definition mk_val :: "int \<Rightarrow> 'a::len word pdd" where
  "mk_val k = Val (word_of_int k)"

definition is_zero :: "'a::len word pdd \<Rightarrow> bool" where
  "is_zero p = (p = Val 0)"

definition is_max :: "'a::len word pdd \<Rightarrow> bool" where
  "is_max p = (p = Val (- 1))"

definition two_to_N :: "'a::len itself \<Rightarrow> int" where
  "two_to_N _ = 2 ^ LENGTH('a)"

definition max_value :: "'a::len itself \<Rightarrow> int" where
  "max_value _ = 2 ^ LENGTH('a) - 1"

text \<open>
  Modelled from the spec: the arithmetic of \<^verbatim>\<open>dd::pdd\<close> (sum, negation, difference,
  product with a rational).  Variables are ordered by their index, the largest at the
  root, and a node whose high branch vanishes collapses to its low branch.
\<close>

definition mk_node :: "pvar \<Rightarrow> 'a::len word pdd \<Rightarrow> 'a word pdd \<Rightarrow> 'a word pdd" where
  "mk_node x lo hi = (if hi = Val 0 then lo else Node x lo hi)"

fun pdd_add :: "'a::len word pdd \<Rightarrow> 'a word pdd \<Rightarrow> 'a word pdd" where
  "pdd_add (Val a) (Val b) = Val (a + b)"
| "pdd_add (Val a) (Node y l h) = Node y (pdd_add (Val a) l) h"
| "pdd_add (Node x l h) (Val b) = Node x (pdd_add l (Val b)) h"
| "pdd_add (Node x l h) (Node y l' h') =
     (if x = y then mk_node x (pdd_add l l') (pdd_add h h')
      else if y < x then Node x (pdd_add l (Node y l' h')) h
      else Node y (pdd_add (Node x l h) l') h')"

fun pdd_neg :: "'a::len word pdd \<Rightarrow> 'a word pdd" where
  "pdd_neg (Val a) = Val (- a)"
| "pdd_neg (Node x l h) = Node x (pdd_neg l) (pdd_neg h)"

definition pdd_sub :: "'a::len word pdd \<Rightarrow> 'a word pdd \<Rightarrow> 'a word pdd" where
  "pdd_sub p q = pdd_add p (pdd_neg q)"

fun pdd_scale :: "int \<Rightarrow> 'a::len word pdd \<Rightarrow> 'a word pdd" where
  "pdd_scale k (Val a) = Val (word_of_int k * a)"
| "pdd_scale k (Node x l h) = mk_node x (pdd_scale k l) (pdd_scale k h)"

text \<open>
  Modelled from the spec: \<^verbatim>\<open>pdd::degree(v)\<close>, the degree of \<open>v\<close> in \<open>p\<close>.
\<close>

fun degree :: "pvar \<Rightarrow> 'a word pdd \<Rightarrow> nat" where
  "degree v (Val c) = 0"
| "degree v (Node x lo hi) =
     (if x = v then max (degree v lo) (Suc (degree v hi))
      else max (degree v lo) (degree v hi))"

text \<open>
  Modelled from the spec: \<^verbatim>\<open>pdd::factor(v, 1, q, e)\<close>, which splits \<open>p\<close> into
  \<open>q * v + e\<close> with the remainder \<open>e\<close> free of \<open>v\<close>.
\<close>

fun factor :: "pvar \<Rightarrow> 'a::len word pdd \<Rightarrow> 'a word pdd \<times> 'a word pdd" where
  "factor v (Val c) = (Val 0, Val c)"
| "factor v (Node x lo hi) =
     (let (ql, el) = factor v lo; (qh, eh) = factor v hi in
      if x = v then (pdd_add hi ql, el)
      else (mk_node x ql qh, mk_node x el eh))"

section \<open>Constraints and the solver core\<close>

text \<open>
  Modelled from the spec: the constraint classes (\<^verbatim>\<open>constraints.h\<close>,
  \<^verbatim>\<open>ule_constraint.h\<close>, \<^verbatim>\<open>umul_ovfl_constraint.h\<close>) are not part of the sources at
  hand.  A signed constraint is a constraint with a sign; \<open>sign = True\<close> is the negated
  literal.  The matcher distinguishes \<^verbatim>\<open>ule\<close>, \<^verbatim>\<open>umul_ovfl\<close> and everything else.
\<close>

datatype 'w constraint =
    Ule "'w pdd" "'w pdd"
  | Umul_ovfl "'w pdd" "'w pdd"
  | Op_constraint

datatype 'w signed_constraint = SC (sign: bool) (con: "'w constraint")

definition is_positive :: "'a word signed_constraint \<Rightarrow> bool" where
  "is_positive c = (\<not> sign c)"

definition is_negative :: "'a word signed_constraint \<Rightarrow> bool" where
  "is_negative c = sign c"

fun is_ule :: "'a word signed_constraint \<Rightarrow> bool" where
  "is_ule (SC s (Ule p q)) = True"
| "is_ule (SC s c) = False"

fun is_umul_ovfl :: "'a word signed_constraint \<Rightarrow> bool" where
  "is_umul_ovfl (SC s (Umul_ovfl p q)) = True"
| "is_umul_ovfl (SC s c) = False"

text \<open>\<^verbatim>\<open>operator~\<close> on signed constraints.\<close>

definition sc_not :: "'a word signed_constraint \<Rightarrow> 'a word signed_constraint" where
  "sc_not c = SC (\<not> sign c) (con c)"

definition cs_ule :: "'a word pdd \<Rightarrow> 'a word pdd \<Rightarrow> 'a word signed_constraint" where
  "cs_ule p q = SC False (Ule p q)"

definition cs_ult :: "'a word pdd \<Rightarrow> 'a word pdd \<Rightarrow> 'a word signed_constraint" where
  "cs_ult p q = SC True (Ule q p)"

definition cs_umul_ovfl :: "'a word pdd \<Rightarrow> 'a word pdd \<Rightarrow> 'a word signed_constraint" where
  "cs_umul_ovfl p q = SC False (Umul_ovfl p q)"

definition cs_eq :: "'a::len word pdd \<Rightarrow> 'a word signed_constraint" where
  "cs_eq p = SC False (Ule p (Val 0))"

text \<open>
  The truth value of a constraint under a total valuation of the variables: \<open>ule\<close>
  compares the two sides as unsigned numbers, \<open>umul_ovfl\<close> says that the product of the
  two operands, taken as unsigned numbers, does not fit into \<open>N\<close> bits.  The other
  constraint kinds are not interpreted here.
\<close>

fun con_holds :: "(pvar \<Rightarrow> 'a::len word) \<Rightarrow> 'a word constraint \<Rightarrow> bool" where
  "con_holds \<sigma> (Ule p q) = (eval \<sigma> p \<le> eval \<sigma> q)"
| "con_holds \<sigma> (Umul_ovfl p q) =
     (2 ^ LENGTH('a) \<le> uint (eval \<sigma> p) * uint (eval \<sigma> q))"
| "con_holds \<sigma> Op_constraint = False"

definition holds :: "(pvar \<Rightarrow> 'a::len word) \<Rightarrow> 'a word signed_constraint \<Rightarrow> bool" where
  "holds \<sigma> c = (con_holds \<sigma> (con c) \<noteq> sign c)"

text \<open>
  The part of \<^verbatim>\<open>core\<close> the matcher and the saturation rules consume: the current
  partial assignment, the unsat core (a list of constraint ids), the constraint index,
  and the answer of \<^verbatim>\<open>core::add_clause\<close> (whether the clause was new), whose body
  is not part of the sources at hand.
\<close>

record 'w core =
  assignment :: "pvar \<rightharpoonup> 'w"
  unsat_core :: "nat list"
  constraint_index :: "nat \<Rightarrow> 'w signed_constraint"
  clause_is_new :: "string \<Rightarrow> bool"

text \<open>A total valuation extends a partial assignment when it agrees with it.\<close>

definition agrees :: "(pvar \<rightharpoonup> 'a word) \<Rightarrow> (pvar \<Rightarrow> 'a word) \<Rightarrow> bool" where
  "agrees \<alpha> \<sigma> = (\<forall>x w. \<alpha> x = Some w \<longrightarrow> \<sigma> x = w)"

text \<open>
  Modelled from the spec: the bodies of \<^verbatim>\<open>core::subst\<close> and \<^verbatim>\<open>core::size\<close> are not
  part of the sources at hand (\<^verbatim>\<open>core.h\<close> declares them).  \<^verbatim>\<open>subst\<close> substitutes
  the assigned variables of a polynomial and returns the simplified polynomial.
\<close>

fun apply_to :: "(pvar \<rightharpoonup> 'a::len word) \<Rightarrow> 'a word pdd \<Rightarrow> 'a word pdd" where
  "apply_to \<alpha> (Val c) = Val c"
| "apply_to \<alpha> (Node x lo hi) =
     (case \<alpha> x of
        None \<Rightarrow> mk_node x (apply_to \<alpha> lo) (apply_to \<alpha> hi)
      | Some w \<Rightarrow> pdd_add (pdd_scale (uint w) (apply_to \<alpha> hi)) (apply_to \<alpha> lo))"

definition subst :: "'a::len word core \<Rightarrow> 'a word pdd \<Rightarrow> 'a word pdd" where
  "subst s p = apply_to (assignment s) p"

text \<open>\<^verbatim>\<open>core::size\<close>: every variable of this model has the width of the word type.\<close>

definition size_of :: "'a::len word core \<Rightarrow> pvar \<Rightarrow> nat" where
  "size_of s v = LENGTH('a)"

text \<open>\<^verbatim>\<open>core::eq(p, q)\<close> is \<^verbatim>\<open>m_constraints.eq(p - q)\<close>.\<close>

definition core_eq :: "'a::len word pdd \<Rightarrow> 'a word pdd \<Rightarrow> 'a word signed_constraint" where
  "core_eq p q = cs_eq (pdd_sub p q)"

section \<open>Linear decomposition\<close>

definition linear_decompose ::
  "'a::len word core \<Rightarrow> pvar \<Rightarrow> 'a word pdd \<Rightarrow> 'a word signed_constraint list \<Rightarrow>
   (bool \<times> int \<times> 'a word pdd \<times> 'a word pdd) \<times> 'a word signed_constraint list" where
  "linear_decompose s v p out_side_cond =
    (let deg = degree v p in
     if 1 < deg then ((False, 0, Val 0, Val 0), out_side_cond)
     else
       let (q, e) = (if deg = 0 then (Val 0, p) else factor v p) in
       if \<not> is_val q then
         (let r = subst s q in
          if \<not> is_val r then ((False, 0, q, e), out_side_cond)
          else
            let b = subst s e in
            ((is_val b, val r, e, b), out_side_cond @ [core_eq q r]))
       else
         let b = subst s e in
         ((is_val b, val q, e, b), out_side_cond))"

section \<open>Intervals and forbidden-interval records\<close>

text \<open>
  Modelled from the spec: \<^verbatim>\<open>interval.h\<close> is not part of the sources at hand.  An
  evaluated interval is \<open>full\<close>, \<open>empty\<close> or a half-open range \<open>[lo, hi)\<close> that wraps
  at \<open>2^N\<close>; each endpoint is a symbolic polynomial paired with its value.
\<close>

datatype 'w eval_interval = Full | Empty | Proper "'w pdd" int "'w pdd" int

fun currently_contains :: "'a word eval_interval \<Rightarrow> int \<Rightarrow> bool" where
  "currently_contains Full x = True"
| "currently_contains Empty x = False"
| "currently_contains (Proper l lv h hv) x =
     (if lv \<le> hv then lv \<le> x \<and> x < hv else x < hv \<or> lv \<le> x)"

record 'w fi_record =
  interval :: "'w eval_interval"
  side_cond :: "'w signed_constraint list"
  src :: "'w signed_constraint list"
  deps :: "nat list"
  coeff :: int
  bit_width :: nat

text \<open>The constructor \<^verbatim>\<open>fi_record()\<close>, which is also the state after \<^verbatim>\<open>reset()\<close>.\<close>

definition fi_record_init :: "'a word fi_record" where
  "fi_record_init =
     \<lparr>interval = Full, side_cond = [], src = [], deps = [], coeff = 0, bit_width = 0\<rparr>"

text \<open>
  The matcher's state: the record under construction and the static
  \<^verbatim>\<open>_last_function\<close>, which every pattern overwrites with its own name on entry.
\<close>

type_synonym 'w mstate = "'w fi_record \<times> string"

text \<open>
  \<^verbatim>\<open>struct backtrack\<close>: the guard remembers the length of the side-condition list on
  construction; its destructor shrinks the list back unless \<^verbatim>\<open>released\<close> is set.
\<close>

definition backtrack_exit :: "bool \<Rightarrow> nat \<Rightarrow> 'a word fi_record \<Rightarrow> 'a word fi_record" where
  "backtrack_exit released sz fi =
     (if released then fi else fi\<lparr>side_cond := take sz (side_cond fi)\<rparr>)"

text \<open>
  Modelled from the spec: \<^verbatim>\<open>rational::mult_inverse\<close> is not part of the sources at
  hand; it computes the multiplicative inverse modulo \<open>2^N\<close>, which exists exactly for
  odd numbers.  The flag is the function's result, the number its output parameter.
\<close>

definition mult_inverse :: "int \<Rightarrow> nat \<Rightarrow> bool \<times> int" where
  "mult_inverse a n =
     (if a = 1 then (True, 1)
      else if even a then (False, 0)
      else (True, a ^ (2 ^ (n - 1) - 1) mod 2 ^ n))"

definition push_eq ::
  "bool \<Rightarrow> 'a::len word pdd \<Rightarrow> 'a word signed_constraint list \<Rightarrow> 'a word signed_constraint list" where
  "push_eq iz p sc =
     (if is_val p then sc
      else if iz then sc @ [cs_eq p]
      else sc @ [sc_not (cs_eq p)])"

text \<open>
  The block of \<^verbatim>\<open>to_interval\<close> that runs when the coefficient exceeds half the modulus:
  \<open>y \<in> [l;u[  \<longleftrightarrow>  -y \<in> [1-u;1-l[\<close>.
\<close>

definition negate_bounds ::
  "int \<times> int \<times> 'a::len word pdd \<times> int \<times> 'a word pdd \<Rightarrow> int \<times> int \<times> 'a word pdd \<times> int \<times> 'a word pdd" where
  "negate_bounds t =
     (case t of (k, lo_val, lo, hi_val, hi) \<Rightarrow>
        (two_to_N TYPE('a) - k,
         (1 - hi_val) mod two_to_N TYPE('a), pdd_sub (mk_val 1) hi,
         (1 - lo_val) mod two_to_N TYPE('a), pdd_sub (mk_val 1) lo))"

definition to_interval ::
  "'a::len word signed_constraint \<Rightarrow> bool \<Rightarrow> int \<Rightarrow> int \<Rightarrow> 'a word pdd \<Rightarrow> int \<Rightarrow> 'a word pdd \<Rightarrow>
   'a word eval_interval \<times> int" where
  "to_interval c is_trivial k lo_val lo hi_val hi =
     (if is_trivial then
        (if is_positive c then (Empty, k) else (Full, k))
      else
        (case (if two_to_N TYPE('a) div 2 < k then negate_bounds (k, lo_val, lo, hi_val, hi)
               else (k, lo_val, lo, hi_val, hi)) of
           (k', lo_val', lo', hi_val', hi') \<Rightarrow>
             if is_positive c then (Proper lo' lo_val' hi' hi_val', k')
             else (Proper hi' hi_val' lo' lo_val', k')))"

definition add_non_unit_side_conds ::
  "'a::len word fi_record \<Rightarrow> 'a word pdd \<Rightarrow> 'a word pdd \<Rightarrow> 'a word pdd \<Rightarrow> 'a word pdd \<Rightarrow> 'a word fi_record" where
  "add_non_unit_side_conds fi b1 e1 b2 e2 =
     (if coeff fi = 1 then fi
      else
        let sc1 = (if b1 \<noteq> e1 then side_cond fi @ [core_eq b1 e1] else side_cond fi);
            sc2 = (if b2 \<noteq> e2 then sc1 @ [core_eq b2 e2] else sc1)
        in fi\<lparr>side_cond := sc2\<rparr>)"

section \<open>The patterns\<close>

definition match_linear1 ::
  "'a::len word signed_constraint \<Rightarrow> int \<Rightarrow> 'a word pdd \<Rightarrow> 'a word pdd \<Rightarrow> int \<Rightarrow> 'a word pdd \<Rightarrow> 'a word pdd \<Rightarrow>
   'a word mstate \<Rightarrow> bool \<times> 'a word mstate" where
  "match_linear1 c a1 b1 e1 a2 b2 e2 st =
     (case st of (fi, lf) \<Rightarrow>
        if a2 = 0 \<and> a1 \<noteq> 0 then
          let is_trivial = is_zero (pdd_add b2 (mk_val 1));
              fi1 = fi\<lparr>side_cond := push_eq is_trivial (pdd_add e2 (mk_val 1)) (side_cond fi)\<rparr>;
              lo = pdd_add (pdd_sub e2 e1) (mk_val 1);
              lo_val = val (pdd_add (pdd_sub b2 b1) (mk_val 1));
              hi = pdd_neg e1;
              hi_val = val (pdd_neg b1);
              (iv, k) = to_interval c is_trivial a1 lo_val lo hi_val hi;
              fi2 = fi1\<lparr>coeff := k, interval := iv\<rparr>
          in (True, add_non_unit_side_conds fi2 b1 e1 b2 e2, ''match_linear1'')
        else (False, fi, ''match_linear1''))"

definition match_linear2 ::
  "'a::len word signed_constraint \<Rightarrow> int \<Rightarrow> 'a word pdd \<Rightarrow> 'a word pdd \<Rightarrow> int \<Rightarrow> 'a word pdd \<Rightarrow> 'a word pdd \<Rightarrow>
   'a word mstate \<Rightarrow> bool \<times> 'a word mstate" where
  "match_linear2 c a1 b1 e1 a2 b2 e2 st =
     (case st of (fi, lf) \<Rightarrow>
        if a1 = 0 \<and> a2 \<noteq> 0 then
          let is_trivial = is_zero b1;
              fi1 = fi\<lparr>side_cond := push_eq is_trivial e1 (side_cond fi)\<rparr>;
              lo = pdd_neg e2;
              lo_val = val (pdd_neg b2);
              hi = pdd_sub e1 e2;
              hi_val = val (pdd_sub b1 b2);
              (iv, k) = to_interval c is_trivial a2 lo_val lo hi_val hi;
              fi2 = fi1\<lparr>coeff := k, interval := iv\<rparr>
          in (True, add_non_unit_side_conds fi2 b1 e1 b2 e2, ''match_linear2'')
        else (False, fi, ''match_linear2''))"

definition match_linear3 ::
  "'a::len word signed_constraint \<Rightarrow> int \<Rightarrow> 'a word pdd \<Rightarrow> 'a word pdd \<Rightarrow> int \<Rightarrow> 'a word pdd \<Rightarrow> 'a word pdd \<Rightarrow>
   'a word mstate \<Rightarrow> bool \<times> 'a word mstate" where
  "match_linear3 c a1 b1 e1 a2 b2 e2 st =
     (case st of (fi, lf) \<Rightarrow>
        if a1 = a2 \<and> a1 \<noteq> 0 then
          let is_trivial = (val b1 = val b2);
              fi1 = fi\<lparr>side_cond := push_eq is_trivial (pdd_sub e1 e2) (side_cond fi)\<rparr>;
              lo = pdd_neg e2;
              lo_val = val (pdd_neg b2);
              hi = pdd_neg e1;
              hi_val = val (pdd_neg b1);
              (iv, k) = to_interval c is_trivial a1 lo_val lo hi_val hi;
              fi2 = fi1\<lparr>coeff := k, interval := iv\<rparr>
          in (True, add_non_unit_side_conds fi2 b1 e1 b2 e2, ''match_linear3'')
        else (False, fi, ''match_linear3''))"

text \<open>
  \<^verbatim>\<open>match_linear4\<close> has no interval in the sense of the other patterns: it stores
  \<open>a1, b1, a2, b2\<close> in the endpoint fields and marks the record with \<open>coeff = -1\<close>.
\<close>

definition match_linear4 ::
  "'a::len word signed_constraint \<Rightarrow> int \<Rightarrow> 'a word pdd \<Rightarrow> 'a word pdd \<Rightarrow> int \<Rightarrow> 'a word pdd \<Rightarrow> 'a word pdd \<Rightarrow>
   'a word mstate \<Rightarrow> bool \<times> 'a word mstate" where
  "match_linear4 c a1 b1 e1 a2 b2 e2 st =
     (case st of (fi, lf) \<Rightarrow>
        if a1 \<noteq> a2 \<and> a1 \<noteq> 0 \<and> a2 \<noteq> 0 then
          let (iv, k) = to_interval c False (- 1) a1 b1 a2 b2;
              fi2 = fi\<lparr>coeff := k, interval := iv\<rparr>
          in (True, add_non_unit_side_conds fi2 b1 e1 b2 e2, ''match_linear4'')
        else (False, fi, ''match_linear4''))"

definition match_zero ::
  "'a::len word signed_constraint \<Rightarrow> int \<Rightarrow> 'a word pdd \<Rightarrow> 'a word pdd \<Rightarrow> int \<Rightarrow> 'a word pdd \<Rightarrow> 'a word pdd \<Rightarrow>
   'a word mstate \<Rightarrow> bool \<times> 'a word mstate" where
  "match_zero c a1 b1 e1 a2 b2 e2 st =
     (case st of (fi, lf) \<Rightarrow>
        if odd a1 \<and> a2 = 0 \<and> is_zero b2 then
          let mod_value = two_to_N TYPE('a);
              a1_inv = snd (mult_inverse a1 LENGTH('a));
              lo_val = (- val b1 * a1_inv) mod mod_value;
              lo = pdd_scale a1_inv (pdd_neg e1);
              hi_val = (lo_val + 1) mod mod_value;
              hi = pdd_add lo (mk_val 1);
              iv = (if is_positive c then Proper hi hi_val lo lo_val
                    else Proper lo lo_val hi hi_val);
              sc = (if b2 \<noteq> e2 then side_cond fi @ [core_eq b2 e2] else side_cond fi)
          in (True, fi\<lparr>coeff := 1, interval := iv, side_cond := sc\<rparr>, ''match_zero'')
        else (False, fi, ''match_zero''))"

definition match_max ::
  "'a::len word signed_constraint \<Rightarrow> int \<Rightarrow> 'a word pdd \<Rightarrow> 'a word pdd \<Rightarrow> int \<Rightarrow> 'a word pdd \<Rightarrow> 'a word pdd \<Rightarrow>
   'a word mstate \<Rightarrow> bool \<times> 'a word mstate" where
  "match_max c a1 b1 e1 a2 b2 e2 st =
     (case st of (fi, lf) \<Rightarrow>
        if a1 = 0 \<and> is_max b1 \<and> odd a2 then
          let mod_value = two_to_N TYPE('a);
              a2_inv = snd (mult_inverse a2 LENGTH('a));
              lo_val = ((- 1 - val b2) * a2_inv) mod mod_value;
              lo = pdd_scale a2_inv (pdd_sub (mk_val (- 1)) e2);
              hi_val = (lo_val + 1) mod mod_value;
              hi = pdd_add lo (mk_val 1);
              iv = (if is_positive c then Proper hi hi_val lo lo_val
                    else Proper lo lo_val hi hi_val);
              sc = (if b1 \<noteq> e1 then side_cond fi @ [core_eq b1 e1] else side_cond fi)
          in (True, fi\<lparr>coeff := 1, interval := iv, side_cond := sc\<rparr>, ''match_max'')
        else (False, fi, ''match_max''))"

definition match_non_zero ::
  "'a::len word signed_constraint \<Rightarrow> int \<Rightarrow> 'a word pdd \<Rightarrow> 'a word pdd \<Rightarrow> 'a word pdd \<Rightarrow>
   'a word mstate \<Rightarrow> bool \<times> 'a word mstate" where
  "match_non_zero c a1 b1 e1 q st =
     (case st of (fi, lf) \<Rightarrow>
        if a1 = 1 \<and> is_negative c then
          let mod_value = two_to_N TYPE('a);
              lo_val = val (pdd_neg b1);
              lo = pdd_neg e1;
              hi_val = (lo_val + 1) mod mod_value;
              hi = pdd_add (pdd_add lo q) (mk_val 1)
          in (True, fi\<lparr>coeff := 1, interval := Proper lo lo_val hi hi_val\<rparr>, ''match_non_zero'')
        else if odd a1 \<and> is_negative c then
          let mod_value = two_to_N TYPE('a);
              a1_inv = snd (mult_inverse a1 LENGTH('a));
              lo_val = (- val b1 * a1_inv) mod mod_value;
              lo = pdd_scale a1_inv (pdd_neg e1);
              hi_val = (lo_val + 1) mod mod_value;
              hi = pdd_add lo (mk_val 1)
          in (True, fi\<lparr>coeff := 1, interval := Proper lo lo_val hi hi_val\<rparr>, ''match_non_zero'')
        else (False, fi, ''match_non_zero''))"

definition match_non_max ::
  "'a::len word signed_constraint \<Rightarrow> 'a word pdd \<Rightarrow> int \<Rightarrow> 'a word pdd \<Rightarrow> 'a word pdd \<Rightarrow>
   'a word mstate \<Rightarrow> bool \<times> 'a word mstate" where
  "match_non_max c p a2 b2 e2 st =
     (case st of (fi, lf) \<Rightarrow>
        if a2 = 1 \<and> is_negative c then
          let mod_value = two_to_N TYPE('a);
              hi_val = val (pdd_neg b2);
              hi = pdd_neg e2;
              lo_val = (hi_val - 1) mod mod_value;
              lo = pdd_sub p e2
          in (True, fi\<lparr>coeff := 1, interval := Proper lo lo_val hi hi_val\<rparr>, ''match_non_max'')
        else if odd a2 \<and> is_negative c then
          let mod_value = two_to_N TYPE('a);
              a2_inv = snd (mult_inverse a2 LENGTH('a));
              lo_val = (a2_inv * (- 1 - val b2)) mod mod_value;
              lo = pdd_scale a2_inv (pdd_sub (mk_val (- 1)) e2);
              hi_val = (lo_val + 1) mod mod_value;
              hi = pdd_add lo (mk_val 1)
          in (True, fi\<lparr>coeff := 1, interval := Proper lo lo_val hi hi_val\<rparr>, ''match_non_max'')
        else (False, fi, ''match_non_max''))"

section \<open>The matcher\<close>

fun ule_lhs :: "'a::len word signed_constraint \<Rightarrow> 'a word pdd" where
  "ule_lhs (SC s (Ule p q)) = p"
| "ule_lhs (SC s c) = Val 0"

fun ule_rhs :: "'a::len word signed_constraint \<Rightarrow> 'a word pdd" where
  "ule_rhs (SC s (Ule p q)) = q"
| "ule_rhs (SC s c) = Val 0"

fun umul_p :: "'a::len word signed_constraint \<Rightarrow> 'a word pdd" where
  "umul_p (SC s (Umul_ovfl p q)) = p"
| "umul_p (SC s c) = Val 0"

fun umul_q :: "'a::len word signed_constraint \<Rightarrow> 'a word pdd" where
  "umul_q (SC s (Umul_ovfl p q)) = q"
| "umul_q (SC s c) = Val 0"

definition get_interval_ule ::
  "'a::len word core \<Rightarrow> 'a word signed_constraint \<Rightarrow> pvar \<Rightarrow> 'a word mstate \<Rightarrow> bool \<times> 'a word mstate" where
  "get_interval_ule s c v st =
     (case st of (fi0, lf) \<Rightarrow>
      let sz = length (side_cond fi0);
          fi1 = fi0\<lparr>coeff := 1, src := src fi0 @ [c]\<rparr>
      in
      case linear_decompose s v (ule_lhs c) (side_cond fi1) of ((ok1, a1, e1, b1), sc1) \<Rightarrow>
      case linear_decompose s v (ule_rhs c) sc1 of ((ok2, a2, e2, b2), sc2) \<Rightarrow>
      let fi = fi1\<lparr>side_cond := sc2\<rparr> in
      if False \<and> ok1 \<and> \<not> ok2 \<and> fst (match_non_zero c a1 b1 e1 (ule_rhs c) (fi, lf)) then
        (True, snd (match_non_zero c a1 b1 e1 (ule_rhs c) (fi, lf)))
      else if False \<and> \<not> ok1 \<and> ok2 \<and> fst (match_non_max c (ule_lhs c) a2 b2 e2 (fi, lf)) then
        (True, snd (match_non_max c (ule_lhs c) a2 b2 e2 (fi, lf)))
      else if \<not> ok1 \<or> \<not> ok2 \<or> (a1 = 0 \<and> a2 = 0) then
        (False, backtrack_exit False sz fi, lf)
      else
        case match_zero c a1 b1 e1 a2 b2 e2 (fi, lf) of (r1, st1) \<Rightarrow>
        if r1 then (True, st1) else
        case match_max c a1 b1 e1 a2 b2 e2 st1 of (r2, st2) \<Rightarrow>
        if r2 then (True, st2) else
        case match_linear1 c a1 b1 e1 a2 b2 e2 st2 of (r3, st3) \<Rightarrow>
        if r3 then (True, st3) else
        case match_linear2 c a1 b1 e1 a2 b2 e2 st3 of (r4, st4) \<Rightarrow>
        if r4 then (True, st4) else
        case match_linear3 c a1 b1 e1 a2 b2 e2 st4 of (r5, st5) \<Rightarrow>
        if r5 then (True, st5) else
        case match_linear4 c a1 b1 e1 a2 b2 e2 st5 of (r6, st6) \<Rightarrow>
        if r6 then (True, st6) else
        (False, backtrack_exit False sz (fst st6), snd st6))"

definition get_interval_umul_ovfl ::
  "'a::len word core \<Rightarrow> 'a word signed_constraint \<Rightarrow> pvar \<Rightarrow> 'a word mstate \<Rightarrow> bool \<times> 'a word mstate" where
  "get_interval_umul_ovfl s c v st =
     (case st of (fi0, lf) \<Rightarrow>
      let sz = length (side_cond fi0);
          fi1 = fi0\<lparr>coeff := 1, src := src fi0 @ [c]\<rparr>
      in
      case linear_decompose s v (umul_p c) (side_cond fi1) of (d1, sc1) \<Rightarrow>
      case linear_decompose s v (umul_q c) sc1 of (d2, sc2) \<Rightarrow>
      let fi = fi1\<lparr>side_cond := sc2\<rparr>;
          bound = max_value TYPE('a)
      in
      case (if fst d2 \<and> \<not> fst d1 then (d2, d1) else (d1, d2)) of
        ((ok1, a1, e1, b1), (ok2, a2, e2, b2)) \<Rightarrow>
      if ok1 \<and> \<not> ok2 \<and> a1 = 1 \<and> is_zero b1 \<and> is_positive c then
        (True, fi\<lparr>interval := Proper (mk_val 0) 0 (mk_val 2) 2\<rparr>, lf)
      else if \<not> ok1 \<or> \<not> ok2 then
        (False, backtrack_exit False sz fi, lf)
      else
        case (if a2 = 1 \<and> a1 = 0 then ((a2, e2, b2), (a1, e1, b1)) else ((a1, e1, b1), (a2, e2, b2))) of
          ((a1, e1, b1), (a2, e2, b2)) \<Rightarrow>
        if a1 \<noteq> 1 \<or> a2 \<noteq> 0 then (False, backtrack_exit False sz fi, lf)
        else if \<not> is_zero b1 then (False, backtrack_exit False sz fi, lf)
        else if is_positive c then
          (if val b2 \<le> 1 then
             (True, fi\<lparr>interval := Full, side_cond := side_cond fi @ [cs_ule e2 (mk_val 1)]\<rparr>, lf)
           else
             let A = bound div val b2;
                 B = (bound + A) div A - 1
             in
             if 4 \<le> A \<and> 4 \<le> B then (False, backtrack_exit False sz fi, lf)
             else
               (True, fi\<lparr>interval := Proper (mk_val 0) 0 (mk_val (A + 1)) (A + 1),
                         side_cond := side_cond fi @ [cs_ule e2 (mk_val B)]\<rparr>, lf))
        else
          (if val b2 \<le> 1 then (False, backtrack_exit False sz fi, lf)
           else
             let A = bound div val b2 + 1;
                 B = (bound + A) div A
             in
             if 4 \<le> A \<and> 4 \<le> B then (False, backtrack_exit False sz fi, lf)
             else
               (True, fi\<lparr>interval := Proper (mk_val A) A (mk_val 0) 0,
                         side_cond := side_cond fi @ [cs_ule (mk_val (val b2)) e2]\<rparr>, lf)))"

definition get_interval ::
  "'a::len word core \<Rightarrow> 'a word signed_constraint \<Rightarrow> pvar \<Rightarrow> 'a word mstate \<Rightarrow> bool \<times> 'a word mstate" where
  "get_interval s c v st =
     (case st of (fi0, lf) \<Rightarrow>
      let fi = fi0\<lparr>bit_width := size_of s v\<rparr> in
      if is_ule c then get_interval_ule s c v (fi, lf)
      else if is_umul_ovfl c then get_interval_umul_ovfl s c v (fi, lf)
      else (False, fi, lf))"

text \<open>
  The pattern chain of \<^verbatim>\<open>get_interval_ule\<close> in the words of the specification: an
  ordered list of patterns, the first success wins, and nothing after it runs.
\<close>

fun first_match ::
  "('a word mstate \<Rightarrow> bool \<times> 'a word mstate) list \<Rightarrow> 'a word mstate \<Rightarrow>
   (bool \<times> 'a word mstate)" where
  "first_match [] st = (False, st)"
| "first_match (m # ms) st =
     (case m st of (r, st') \<Rightarrow> if r then (True, st') else first_match ms st')"

section \<open>Saturation\<close>

text \<open>
  Modelled from the spec: \<^verbatim>\<open>inequality.h\<close> is not part of the sources at hand.  An
  inequality is \<open>lhs \<le> rhs\<close> or, when strict, \<open>lhs < rhs\<close>, together with the id and the
  dependency of the constraint it was read from.
\<close>

record 'w inequality =
  ineq_lhs :: "'w pdd"
  ineq_rhs :: "'w pdd"
  ineq_strict :: bool
  ineq_id :: nat
  ineq_dep :: nat

datatype 'w constraint_or_dependency = Dep nat | Con "'w signed_constraint"

text \<open>
  The state of the saturation engine: the rule name, the flag \<^verbatim>\<open>m_propagated\<close>, and
  the calls made into the core (\<^verbatim>\<open>core::propagate\<close>, \<^verbatim>\<open>core::add_clause\<close>), in order.
\<close>

record 'w saturation =
  m_rule :: string
  m_propagated :: bool
  propagated :: "('w signed_constraint \<times> nat list) list"
  clauses :: "(string \<times> 'w constraint_or_dependency list \<times> bool) list"

definition pdd_var :: "pvar \<Rightarrow> 'a::len word pdd" where
  "pdd_var v = Node v (Val 0) (Val 1)"

definition get_constraint :: "'a word core \<Rightarrow> nat \<Rightarrow> 'a word signed_constraint" where
  "get_constraint s cid = constraint_index s cid"

definition set_rule :: "string \<Rightarrow> 'a word saturation \<Rightarrow> 'a word saturation" where
  "set_rule r st = st\<lparr>m_rule := r\<rparr>"

text \<open>\<^verbatim>\<open>saturation::match_core\<close>: the first constraint of the unsat core satisfying \<open>P\<close>.\<close>

definition match_core :: "'a word core \<Rightarrow> ('a word signed_constraint \<Rightarrow> bool) \<Rightarrow> nat option" where
  "match_core s P = List.find (\<lambda>cid. P (get_constraint s cid)) (unsat_core s)"

definition add_clause ::
  "'a word core \<Rightarrow> string \<Rightarrow> 'a word constraint_or_dependency list \<Rightarrow> bool \<Rightarrow>
   'a word saturation \<Rightarrow> 'a word saturation" where
  "add_clause s name cs is_redundant st =
     (let st' = st\<lparr>clauses := clauses st @ [(name, cs, is_redundant)]\<rparr> in
      if clause_is_new s name then st'\<lparr>m_propagated := True\<rparr> else st')"

definition propagate_infer_equality ::
  "'a::len word core \<Rightarrow> pvar \<Rightarrow> 'a word inequality \<Rightarrow> 'a word saturation \<Rightarrow> 'a word saturation" where
  "propagate_infer_equality s x i st0 =
     (let st = set_rule ''[x] p <= q, q <= p => p - q = 0'' st0 in
      if ineq_strict i then st
      else if degree x (ineq_lhs i) = 0 \<and> degree x (ineq_rhs i) = 0 then st
      else
        case match_core s (\<lambda>sc. is_ule sc \<and> \<not> sign sc \<and>
                                  ule_lhs sc = ineq_rhs i \<and> ule_rhs sc = ineq_lhs i) of
          None \<Rightarrow> st
        | Some cid \<Rightarrow>
            st\<lparr>propagated := propagated st @
                  [(core_eq (ineq_lhs i) (ineq_rhs i), [cid, ineq_id i])]\<rparr>)"

text \<open>
  Modelled from the spec: \<^verbatim>\<open>inequality::is_xY_l_xZ\<close> is not part of the sources at
  hand; the declarations of \<^verbatim>\<open>saturation.h\<close> describe it as \<^verbatim>\<open>c := xY <= xZ\<close> with
  \<^verbatim>\<open>xy := x * Y\<close>: both sides are the variable times a cofactor, with no remainder.
\<close>

definition is_xY :: "pvar \<Rightarrow> 'a::len word pdd \<Rightarrow> 'a word pdd option" where
  "is_xY x xy =
     (if degree x xy = 1 then
        (case factor x xy of (y, e) \<Rightarrow> if e = Val 0 then Some y else None)
      else None)"

definition is_xY_l_xZ :: "pvar \<Rightarrow> 'a::len word inequality \<Rightarrow> ('a word pdd \<times> 'a word pdd) option" where
  "is_xY_l_xZ x i =
     (case is_xY x (ineq_lhs i) of
        None \<Rightarrow> None
      | Some y \<Rightarrow> (case is_xY x (ineq_rhs i) of None \<Rightarrow> None | Some z \<Rightarrow> Some (y, z)))"

text \<open>
  The clause names of \<^verbatim>\<open>try_ugt_x\<close>; the source spells the overflow predicate with
  the two bytes of a capital omega and the disjunction with a backslash.
\<close>

definition ugt_x_strict_name :: string where
  "ugt_x_strict_name =
     ''[x] yx < zx ==>  '' @ [CHR 0xCE, CHR 0xA9] @ ''*(x,y) '' @ [CHR 0x5C] @ ''/ y < z''"

definition ugt_x_nonstrict_name :: string where
  "ugt_x_nonstrict_name =
     ''[x] yx <= zx  ==>  '' @ [CHR 0xCE, CHR 0xA9] @ ''*(x,y) '' @ [CHR 0x5C] @ ''/ y <= z ''
       @ [CHR 0x5C] @ ''/ x = 0''"

definition try_ugt_x ::
  "'a::len word core \<Rightarrow> pvar \<Rightarrow> 'a word inequality \<Rightarrow> 'a word saturation \<Rightarrow> 'a word saturation" where
  "try_ugt_x s v i st =
     (let x = pdd_var v in
      case is_xY_l_xZ v i of
        None \<Rightarrow> st
      | Some (y, z) \<Rightarrow>
          let ovfl = cs_umul_ovfl x y in
          if ineq_strict i then
            add_clause s ugt_x_strict_name
              [Dep (ineq_dep i), Con ovfl, Con (cs_ult y z)] False st
          else
            add_clause s ugt_x_nonstrict_name
              [Dep (ineq_dep i), Con ovfl, Con (cs_eq x), Con (cs_ule y z)] False st)"

text \<open>\<^verbatim>\<open>saturation::propagate(pvar, inequality const&)\<close>: the two enabled rules.\<close>

definition propagate_ineq ::
  "'a::len word core \<Rightarrow> pvar \<Rightarrow> 'a word inequality \<Rightarrow> 'a word saturation \<Rightarrow> 'a word saturation" where
  "propagate_ineq s v i st =
     (if size_of s v \<noteq> LENGTH('a) then st
      else try_ugt_x s v i (propagate_infer_equality s v i st))"

section \<open>Concrete inputs\<close>

text \<open>
  An 8-bit solver state: variable 1 is assigned the value 3, the unsat core holds the
  constraints 4 and 7, and constraint 7 is \<open>v1 \<le> v0\<close>.
\<close>

definition ex_core :: "8 word core" where
  "ex_core =
     \<lparr>assignment = [1 \<mapsto> 3], unsat_core = [4, 7],
      constraint_index = (\<lambda>n. if n = 7 then SC False (Ule (Node 1 (Val 0) (Val 1)) (Node 0 (Val 0) (Val 1)))
                               else SC False Op_constraint),
      clause_is_new = (\<lambda>_. True)\<rparr>"

text \<open>The polynomial \<open>v1 * v0 + 5\<close>.\<close>

definition ex_poly :: "8 word pdd" where
  "ex_poly = Node 1 (Val 5) (Node 0 (Val 0) (Val 1))"

text \<open>A total valuation that extends the assignment of \<open>ex_core\<close>.\<close>

definition ex_model :: "pvar \<Rightarrow> 8 word" where
  "ex_model = (\<lambda>_. 2)(1 := 3)"

text \<open>The inequality \<open>v0 \<le> v1\<close>, read from constraint 9 with dependency 2.\<close>

definition ex_ineq :: "8 word inequality" where
  "ex_ineq =
     \<lparr>ineq_lhs = Node 0 (Val 0) (Val 1), ineq_rhs = Node 1 (Val 0) (Val 1),
      ineq_strict = False, ineq_id = 9, ineq_dep = 2\<rparr>"

text \<open>The inequalities \<open>v1 * v0 \<le> v2 * v0\<close> and \<open>v1 * v0 < v2 * v0\<close>.\<close>

definition ex_mul_ineq :: "bool \<Rightarrow> 8 word inequality" where
  "ex_mul_ineq strict =
     \<lparr>ineq_lhs = Node 1 (Val 0) (Node 0 (Val 0) (Val 1)),
      ineq_rhs = Node 2 (Val 0) (Node 0 (Val 0) (Val 1)),
      ineq_strict = strict, ineq_id = 9, ineq_dep = 2\<rparr>"

text \<open>A saturation state before any rule has run.\<close>

definition ex_saturation :: "8 word saturation" where
  "ex_saturation = \<lparr>m_rule = [], m_propagated = False, propagated = [], clauses = []\<rparr>"

text \<open>The polynomial \<open>3 * v0 + 7\<close>.\<close>

definition ex_zero_lhs :: "8 word pdd" where "ex_zero_lhs = Node 0 (Val 7) (Val 3)"

text \<open>The polynomial \<open>v1 * v0 + v2\<close>, whose remainder \<open>v2\<close> is unassigned.\<close>

definition ex_unevaluable :: "8 word pdd" where
  "ex_unevaluable = Node 2 (Node 1 (Val 0) (Node 0 (Val 0) (Val 1))) (Val 1)"

text \<open>The constraints \<open>v0 \<le> 5\<close> and \<open>0 \<le> 5\<close>.\<close>

definition ex_le5 :: "8 word signed_constraint" where
  "ex_le5 = SC False (Ule (pdd_var 0) (Val 5))"

definition ex_const_le :: "8 word signed_constraint" where
  "ex_const_le = SC False (Ule (Val 0) (Val 5))"

text \<open>The polynomial \<open>v0 * v0\<close>.\<close>

definition ex_square :: "8 word pdd" where
  "ex_square = Node 0 (Val 0) (Node 0 (Val 0) (Val 1))"

text \<open>The constraint \<open>2 * v0 \<le> 5\<close>.\<close>

definition ex_double_le5 :: "8 word signed_constraint" where
  "ex_double_le5 = SC False (Ule (Node 0 (Val 0) (Val 2)) (Val 5))"

section \<open>Properties of the polynomial operations\<close>

lemma eval_mk_node [simp]: "eval \<sigma> (mk_node x lo hi) = \<sigma> x * eval \<sigma> hi + eval \<sigma> lo"
  by (simp add: mk_node_def)

lemma eval_pdd_add [simp]: "eval \<sigma> (pdd_add p q) = eval \<sigma> p + eval \<sigma> q"
  by (induction p q rule: pdd_add.induct) (simp_all add: algebra_simps)

lemma eval_pdd_neg [simp]: "eval \<sigma> (pdd_neg p) = - eval \<sigma> p"
  by (induction p) (simp_all add: algebra_simps)

lemma eval_pdd_sub [simp]: "eval \<sigma> (pdd_sub p q) = eval \<sigma> p - eval \<sigma> q"
  by (simp add: pdd_sub_def)

lemma eval_pdd_scale [simp]: "eval \<sigma> (pdd_scale k p) = word_of_int k * eval \<sigma> p"
  by (induction p) (simp_all add: algebra_simps)

lemma eval_mk_val [simp]: "eval \<sigma> (mk_val k) = word_of_int k"
  by (simp add: mk_val_def)

lemma is_val_eval: "is_val p \<Longrightarrow> eval \<sigma> p = word_of_int (val p)"
  by (cases p) simp_all

lemma is_val_Val: "is_val b \<Longrightarrow> \<exists>w. b = Val w"
  by (cases b) auto

lemma factor_sound:
  "factor v p = (q, e) \<Longrightarrow> eval \<sigma> p = eval \<sigma> q * \<sigma> v + eval \<sigma> e"
proof (induction p arbitrary: q e)
  case (Val c)
  then show ?case by auto
next
  case (Node x lo hi)
  obtain ql el where l: "factor v lo = (ql, el)" by (cases "factor v lo")
  obtain qh eh where h: "factor v hi = (qh, eh)" by (cases "factor v hi")
  from Node.IH(1)[OF l] Node.IH(2)[OF h] Node.prems l h show ?case
    by (auto simp: algebra_simps split: if_splits)
qed

lemma pdd_neg_neg: "pdd_neg (pdd_neg p) = p"
  by (induction p) simp_all

lemma pdd_add_neg_neg:
  "pdd_add (Val a) (pdd_neg (pdd_add (Val b) (pdd_neg p))) = pdd_add (Val (a - b)) p"
  by (induction p) (simp_all add: pdd_neg_neg)

lemma pdd_add_zero: "pdd_add (Val 0) p = p"
  by (induction p) simp_all

lemma one_minus_one_minus: "pdd_sub (mk_val 1) (pdd_sub (mk_val 1) p) = p"
  by (simp add: pdd_sub_def mk_val_def pdd_add_neg_neg pdd_add_zero)

lemma apply_to_eval: "agrees \<alpha> \<sigma> \<Longrightarrow> eval \<sigma> (apply_to \<alpha> p) = eval \<sigma> p"
  by (induction p) (auto simp: agrees_def split: option.splits)

lemma degree_zero_eval: "degree v p = 0 \<Longrightarrow> eval (\<sigma>(v := w)) p = eval \<sigma> p"
  by (induction p) (auto split: if_splits)

lemma degree_mk_node: "degree v (mk_node x l h) \<le> degree v (Node x l h)"
  by (simp add: mk_node_def)

lemma degree_Node_le:
  "degree v (Node x l h) \<le> n \<longleftrightarrow>
     degree v l \<le> n \<and> (if x = v then Suc (degree v h) \<le> n else degree v h \<le> n)"
  by simp

lemma degree_mk_node_le: "degree v (Node x l h) \<le> n \<Longrightarrow> degree v (mk_node x l h) \<le> n"
  using degree_mk_node[of v x l h] by (rule order_trans)

lemma degree_pdd_add_le:
  "degree v p \<le> n \<Longrightarrow> degree v q \<le> n \<Longrightarrow> degree v (pdd_add p q) \<le> n"
proof (induction p q arbitrary: n rule: pdd_add.induct)
  case (1 a b)
  then show ?case by simp
next
  case (2 a y l h)
  from "2.prems"(2) have l: "degree v l \<le> n" by (simp only: degree_Node_le)
  have "degree v (pdd_add (Val a) l) \<le> n" by (rule "2.IH") (simp, rule l)
  with "2.prems"(2) show ?case by (auto simp only: pdd_add.simps degree_Node_le)
next
  case (3 x l h b)
  from "3.prems"(1) have l: "degree v l \<le> n" by (simp only: degree_Node_le)
  have "degree v (pdd_add l (Val b)) \<le> n" by (rule "3.IH") (rule l, simp)
  with "3.prems"(1) show ?case by (auto simp only: pdd_add.simps degree_Node_le)
next
  case (4 x l h y l' h')
  from "4.prems" have l: "degree v l \<le> n" and l': "degree v l' \<le> n"
    by (simp_all only: degree_Node_le)
  show ?case
  proof (cases "x = y")
    case True
    have a: "degree v (pdd_add l l') \<le> n" by (rule "4.IH"(1)[OF True l l'])
    have b: "(if x = v then Suc (degree v (pdd_add h h')) \<le> n else degree v (pdd_add h h') \<le> n)"
    proof (cases "x = v")
      case xv: True
      with "4.prems" True have "Suc (degree v h) \<le> n" "Suc (degree v h') \<le> n"
        by (simp_all only: degree_Node_le if_True)
      then obtain m where m: "n = Suc m" "degree v h \<le> m" "degree v h' \<le> m"
        by (cases n) auto
      from "4.IH"(2)[OF True m(2,3)] m(1) xv show ?thesis by simp
    next
      case xv: False
      with "4.prems" True have "degree v h \<le> n" "degree v h' \<le> n"
        by (simp_all only: degree_Node_le if_False)
      from "4.IH"(2)[OF True this] xv show ?thesis by simp
    qed
    have "degree v (Node x (pdd_add l l') (pdd_add h h')) \<le> n"
      using a b by (auto simp only: degree_Node_le)
    then have "degree v (mk_node x (pdd_add l l') (pdd_add h h')) \<le> n"
      by (rule degree_mk_node_le)
    with True show ?thesis by simp
  next
    case False
    show ?thesis
    proof (cases "y < x")
      case True
      have "degree v (pdd_add l (Node y l' h')) \<le> n"
        by (rule "4.IH"(3)[OF False True l "4.prems"(2)])
      with "4.prems"(1) False True show ?thesis
        by (auto simp only: pdd_add.simps degree_Node_le if_True if_False)
    next
      case ny: False
      have "degree v (pdd_add (Node x l h) l') \<le> n"
        by (rule "4.IH"(4)[OF False ny "4.prems"(1) l'])
      with "4.prems"(2) False ny show ?thesis
        by (auto simp only: pdd_add.simps degree_Node_le if_True if_False)
    qed
  qed
qed

lemma degree_pdd_add: "degree v (pdd_add p q) \<le> max (degree v p) (degree v q)"
  by (rule degree_pdd_add_le) simp_all

lemma factor_degree:
  "factor v p = (q, e) \<Longrightarrow> degree v e = 0 \<and> (degree v p \<le> 1 \<longrightarrow> degree v q = 0)"
proof (induction p arbitrary: q e)
  case (Val c)
  then show ?case by auto
next
  case (Node x lo hi)
  obtain ql el where l: "factor v lo = (ql, el)" by (cases "factor v lo")
  obtain qh eh where h: "factor v hi = (qh, eh)" by (cases "factor v hi")
  note il = Node.IH(1)[OF l] and ih = Node.IH(2)[OF h]
  show ?case
  proof (cases "x = v")
    case True
    with Node.prems l h have q: "q = pdd_add hi ql" and e: "e = el" by auto
    have "degree v (pdd_add hi ql) \<le> max (degree v hi) (degree v ql)" by (rule degree_pdd_add)
    with il True q e show ?thesis by (auto simp: max_def split: if_splits)
  next
    case False
    with Node.prems l h have q: "q = mk_node x ql qh" and e: "e = mk_node x el eh" by auto
    from il ih False q e show ?thesis by (auto simp: mk_node_def max_def split: if_splits)
  qed
qed

lemma side_eq_holds: "holds \<sigma> (core_eq q r) \<longleftrightarrow> eval \<sigma> q = eval \<sigma> r"
  by (simp add: holds_def core_eq_def cs_eq_def)

section \<open>Arithmetic modulo a power of two\<close>

lemma odd_pow2_dvd: "odd (a::int) \<Longrightarrow> 2 ^ Suc k dvd a ^ (2 ^ k) - 1"
proof (induction k)
  case 0
  then show ?case by simp
next
  case (Suc k)
  have e: "a ^ (2 ^ Suc k) - 1 = (a ^ (2 ^ k) - 1) * (a ^ (2 ^ k) + 1)"
    by (simp add: power2_eq_square[symmetric] power_mult algebra_simps power_even_eq mult_2 power_add)
  have "odd (a ^ (2 ^ k))" using Suc.prems by simp
  then have "2 dvd a ^ (2 ^ k) + 1" by simp
  with Suc.IH[OF Suc.prems] have "2 ^ Suc k * 2 dvd (a ^ (2 ^ k) - 1) * (a ^ (2 ^ k) + 1)"
    by (rule mult_dvd_mono)
  then have "2 ^ Suc (Suc k) dvd (a ^ (2 ^ k) - 1) * (a ^ (2 ^ k) + 1)"
    by (simp add: mult.commute)
  then show ?case by (simp only: e)
qed

lemma mult_inverse_odd:
  assumes "odd a" "0 < n"
  shows "fst (mult_inverse a n)" and "(a * snd (mult_inverse a n)) mod 2 ^ n = 1"
proof -
  show "fst (mult_inverse a n)" using assms by (simp add: mult_inverse_def)
  obtain k where k: "n = Suc k" using assms(2) by (cases n) auto
  have "2 ^ n dvd a ^ (2 ^ k) - 1" using odd_pow2_dvd[OF assms(1), of k] k by simp
  then have m: "a ^ (2 ^ k) mod 2 ^ n = 1 mod 2 ^ n"
    by (rule iffD2[OF mod_eq_dvd_iff])
  have p: "a * a ^ (2 ^ k - 1) = a ^ (2 ^ k)"
    using power_Suc[of a "2 ^ k - 1"] by simp
  have "(1::int) < 2 ^ n" using assms(2) by (simp add: one_less_power)
  then have one: "(1::int) mod 2 ^ n = 1" by (intro mod_pos_pos_trivial) simp_all
  show "(a * snd (mult_inverse a n)) mod 2 ^ n = 1"
  proof (cases "a = 1")
    case True
    then show ?thesis using one by (simp add: mult_inverse_def)
  next
    case False
    then have "snd (mult_inverse a n) = a ^ (2 ^ k - 1) mod 2 ^ n"
      using assms(1) k by (simp add: mult_inverse_def)
    then show ?thesis using m p one by (simp add: mod_mult_right_eq)
  qed
qed

lemma mult_inverse_3_8: "mult_inverse 3 8 = (True, 171)"
  by (simp add: mult_inverse_def)

lemma word_inverse:
  assumes "odd a"
  shows "(word_of_int a :: 'a::len word) * word_of_int (snd (mult_inverse a LENGTH('a))) = 1"
proof -
  from mult_inverse_odd(2)[OF assms, of "LENGTH('a)"]
  have "(a * snd (mult_inverse a LENGTH('a))) mod 2 ^ LENGTH('a) = 1 mod 2 ^ LENGTH('a)"
    by simp
  then have "(word_of_int (a * snd (mult_inverse a LENGTH('a))) :: 'a word) = word_of_int 1"
    by (simp only: word_of_int_eq_iff take_bit_eq_mod)
  then show ?thesis by (simp add: wi_hom_syms)
qed

lemma word_linear_solution:
  fixes a i w b :: "'a::len word"
  assumes "a * i = 1"
  shows "a * w + b = 0 \<longleftrightarrow> w = - b * i"
proof
  assume "a * w + b = 0"
  then have "a * w = - b" by (simp add: add_eq_0_iff2)
  then have "i * (a * w) = i * (- b)" by simp
  then have "(a * i) * w = - b * i" by (simp add: mult.assoc mult.commute mult.left_commute)
  with assms show "w = - b * i" by simp
next
  assume "w = - b * i"
  then have "a * w + b = - b * (a * i) + b" by (simp add: mult.assoc mult.commute mult.left_commute)
  with assms show "a * w + b = 0" by simp
qed

lemma word_minus_one_le:
  fixes y :: "'a::len word"
  shows "- 1 \<le> y \<longleftrightarrow> y + 1 = 0"
proof
  assume "- 1 \<le> y"
  moreover have "y \<le> - 1" by simp
  ultimately have "y = - 1" by (rule order_antisym[rotated])
  then show "y + 1 = 0" by simp
next
  assume "y + 1 = 0"
  then have "y = - 1" by (simp add: eq_neg_iff_add_eq_0)
  then show "- 1 \<le> y" by simp
qed

lemma uint_one_minus:
  fixes h :: "'a::len word"
  shows "(1 - uint h) mod 2 ^ LENGTH('a) = uint (1 - h)"
  by (simp add: uint_word_ariths)

lemma uint_neg_if:
  fixes d :: "'a::len word"
  shows "uint (- d) = (if d = 0 then 0 else 2 ^ LENGTH('a) - uint d)"
  using uint_sub_if'[of 0 d] by (auto simp: uint_0_iff)

lemma contains_word:
  fixes t l h :: "'a::len word"
  shows "currently_contains (Proper lo (uint l) hi (uint h)) (uint t) \<longleftrightarrow> t - l < h - l"
  apply simp
  apply uint_arith
  done

lemma word_less_flip:
  fixes x d :: "'a::len word"
  shows "d - x - 1 < d \<longleftrightarrow> x < d"
  by uint_arith

lemma word_range_complement:
  fixes x d :: "'a::len word"
  assumes "d \<noteq> 0"
  shows "x - d < - d \<longleftrightarrow> \<not> x < d"
proof -
  define X D where "X = uint x" and "D = uint d"
  have b: "0 \<le> X" "X < 2 ^ LENGTH('a)" "0 \<le> D" "D < 2 ^ LENGTH('a)"
    by (simp_all add: X_def D_def)
  have nz: "D \<noteq> 0" using assms by (simp add: D_def uint_0_iff)
  have "(if D \<le> X then X - D else X - D + 2 ^ LENGTH('a)) < 2 ^ LENGTH('a) - D \<longleftrightarrow> \<not> X < D"
    using b nz by auto
  then show ?thesis
    using assms by (simp add: word_less_def uint_neg_if uint_sub_if' X_def D_def)
qed

lemma word_succ_le:
  fixes u b :: "'a::len word"
  assumes "b + 1 \<noteq> 0"
  shows "b + 1 \<le> u \<longleftrightarrow> \<not> u \<le> b"
proof -
  define U B where "U = uint u" and "B = uint b"
  have c: "0 \<le> U" "U < 2 ^ LENGTH('a)" "0 \<le> B" "B < 2 ^ LENGTH('a)"
    by (simp_all add: U_def B_def)
  have s: "uint (b + 1) = (if B + 1 < 2 ^ LENGTH('a) then B + 1 else B + 1 - 2 ^ LENGTH('a))"
    by (simp add: uint_plus_if' B_def)
  have "uint (b + 1) \<noteq> 0" using assms by (simp add: uint_0_iff)
  then have nz: "B + 1 < 2 ^ LENGTH('a)" using c unfolding s by (auto split: if_splits)
  have "uint (b + 1) \<le> U \<longleftrightarrow> \<not> U \<le> B" unfolding s using nz by auto
  then show ?thesis by (simp add: word_le_def U_def B_def)
qed

lemma word_sub_less:
  fixes x d :: "'a::len word"
  assumes "d \<noteq> 0"
  shows "x < d \<longleftrightarrow> x < x - d"
proof -
  define X D where "X = uint x" and "D = uint d"
  have b: "0 \<le> X" "X < 2 ^ LENGTH('a)" "0 \<le> D" "D < 2 ^ LENGTH('a)"
    by (simp_all add: X_def D_def)
  have nz: "D \<noteq> 0" using assms by (simp add: D_def uint_0_iff)
  have "X < D \<longleftrightarrow> X < (if D \<le> X then X - D else X - D + 2 ^ LENGTH('a))"
    using b nz by auto
  then show ?thesis
    by (simp add: word_less_def uint_sub_if' X_def D_def)
qed

text \<open>Membership in the negated interval \<open>[1 - h, 1 - l)\<close> of \<open>- t\<close>.\<close>

lemma in_range_negate:
  fixes t l h :: "'a::len word"
  shows "(- t - (1 - h) < (1 - l) - (1 - h)) \<longleftrightarrow> (t - l < h - l)"
proof -
  have a: "- t - (1 - h) = (h - l) - (t - l) - 1" by simp
  have b: "(1 - l) - (1 - h) = h - l" by simp
  show ?thesis unfolding a b by (rule word_less_flip)
qed

text \<open>The interval \<open>[h, l)\<close> is the complement of \<open>[l, h)\<close>.\<close>

lemma in_range_swap:
  fixes t l h :: "'a::len word"
  assumes "l \<noteq> h"
  shows "(t - h < l - h) \<longleftrightarrow> \<not> (t - l < h - l)"
proof -
  have a: "t - h = (t - l) - (h - l)" by simp
  have b: "l - h = - (h - l)" by simp
  have "h - l \<noteq> 0" using assms by simp
  from word_range_complement[OF this, of "t - l"] show ?thesis unfolding a b .
qed

lemma linear1_range:
  fixes t b1 b2 :: "'a::len word"
  assumes "b2 + 1 \<noteq> 0"
  shows "(t - (b2 - b1 + 1) < (- b1) - (b2 - b1 + 1)) \<longleftrightarrow> \<not> (t + b1 \<le> b2)"
proof -
  have a: "t - (b2 - b1 + 1) = (t + b1) - (b2 + 1)" by simp
  have b: "(- b1) - (b2 - b1 + 1) = - (b2 + 1)" by simp
  from word_range_complement[OF assms, of "t + b1"] word_succ_le[OF assms, of "t + b1"]
  show ?thesis unfolding a b by (simp add: not_less)
qed

lemma linear2_range:
  fixes t b1 b2 :: "'a::len word"
  shows "(t - (- b2) < (b1 - b2) - (- b2)) \<longleftrightarrow> \<not> (b1 \<le> t + b2)"
  by (simp add: not_le)

lemma linear3_range:
  fixes t b1 b2 :: "'a::len word"
  assumes "b1 \<noteq> b2"
  shows "(t - (- b2) < (- b1) - (- b2)) \<longleftrightarrow> \<not> (t + b1 \<le> t + b2)"
proof -
  have a: "t - (- b2) = t + b2" by simp
  have b: "(- b1) - (- b2) = b2 - b1" by simp
  have c: "t + b1 = (t + b2) - (b2 - b1)" by simp
  have "b2 - b1 \<noteq> 0" using assms by simp
  from word_sub_less[OF this, of "t + b2"] show ?thesis
    unfolding a b by (simp only: c not_le)
qed

lemma unit_interval_pos:
  assumes "0 \<le> n" "n < M" "0 \<le> x" "x < M" "(1::int) < M"
  shows "currently_contains (Proper hi ((n + 1) mod M) lo n) x \<longleftrightarrow> x \<noteq> n"
proof (cases "n + 1 < M")
  case True
  then have "(n + 1) mod M = n + 1" using assms by simp
  then show ?thesis by auto
next
  case False
  then have "n + 1 = M" using assms by simp
  then have "(n + 1) mod M = 0" by simp
  then show ?thesis using assms \<open>n + 1 = M\<close> by auto
qed

lemma unit_interval_neg:
  assumes "0 \<le> n" "n < M" "0 \<le> x" "x < M" "(1::int) < M"
  shows "currently_contains (Proper lo n hi ((n + 1) mod M)) x \<longleftrightarrow> x = n"
proof (cases "n + 1 < M")
  case True
  then have "(n + 1) mod M = n + 1" using assms by simp
  then show ?thesis by auto
next
  case False
  then have "n + 1 = M" using assms by simp
  then have "(n + 1) mod M = 0" by simp
  then show ?thesis using assms \<open>n + 1 = M\<close> by auto
qed

lemma ovfl_threshold_pos:
  fixes x b bound :: int
  assumes "1 < b" "bound div b + 1 \<le> x"
  shows "bound < x * b"
proof -
  have m: "bound mod b < b" using assms(1) by simp
  have e: "bound = bound div b * b + bound mod b" by simp
  from m e have "bound < bound div b * b + b" by linarith
  also have "\<dots> = (bound div b + 1) * b" by (simp add: algebra_simps)
  also have "\<dots> \<le> x * b" using assms by (intro mult_right_mono) simp_all
  finally show ?thesis .
qed

lemma ovfl_threshold_neg:
  fixes x b bound :: int
  assumes "1 < b" "x < bound div b + 1"
  shows "x * b \<le> bound"
proof -
  have m: "0 \<le> bound mod b" using assms(1) by simp
  have e: "bound = bound div b * b + bound mod b" by simp
  have "x * b \<le> (bound div b) * b" using assms by (intro mult_right_mono) simp_all
  also from m e have "\<dots> \<le> bound" by linarith
  finally show ?thesis .
qed

section \<open>Linear decomposition\<close>

lemma linear_decompose_is_val:
  "linear_decompose s v p sc = ((True, a, e, b), sc') \<Longrightarrow> is_val b"
  by (auto simp: linear_decompose_def Let_def split: if_splits prod.splits)

lemma linear_decompose_side_cond:
  "linear_decompose s v p sc = (d, sc') \<Longrightarrow>
     sc' = sc \<or> (\<exists>q r. sc' = sc @ [core_eq q r])"
  by (auto simp: linear_decompose_def Let_def split: if_splits prod.splits)

lemma linear_decompose_prefix:
  "linear_decompose s v p sc = (d, sc') \<Longrightarrow> take (length sc) sc' = sc"
  by (drule linear_decompose_side_cond) auto

lemma linear_decompose_prefix2:
  assumes "linear_decompose s v p sc = (d1, sc1)" and "linear_decompose s v q sc1 = (d2, sc2)"
  shows "take (length sc) sc2 = sc"
  using linear_decompose_side_cond[OF assms(1)] linear_decompose_side_cond[OF assms(2)]
  by auto

lemma linear_decompose_var:
  "linear_decompose s v (pdd_var v) sc = ((True, 1, Val 0, Val 0), sc)"
  by (simp add: linear_decompose_def pdd_var_def subst_def Let_def)

lemma linear_decompose_free:
  "degree v q = 0 \<Longrightarrow> subst s q = Val w \<Longrightarrow>
     linear_decompose s v q sc = ((True, 0, q, Val w), sc)"
  by (simp add: linear_decompose_def Let_def)

lemma linear_decompose_fst:
  "fst (linear_decompose s v p sc) = fst (linear_decompose s v p sc')"
  by (simp add: linear_decompose_def Let_def split: prod.splits)

lemma decompose_eval:
  fixes s :: "'a::len word core"
  assumes d: "linear_decompose s v p sc = ((True, a, e, b), sc')"
      and ag: "agrees (assignment s) \<sigma>"
  shows "\<exists>bw. b = Val bw \<and> eval (\<sigma>(v := w)) p = word_of_int a * w + bw
              \<and> 0 \<le> a \<and> a < 2 ^ LENGTH('a)"
proof -
  obtain q e0 where f: "factor v p = (q, e0)" by (cases "factor v p")
  note fs = factor_sound[OF f, of "\<sigma>(v := w)"]
  note fd = factor_degree[OF f]
  have sub: "eval \<sigma> (subst s r) = eval \<sigma> r" for r
    using ag by (simp add: subst_def apply_to_eval)
  have v0: "is_val r \<Longrightarrow> eval \<sigma> r = word_of_int (val r) \<and> 0 \<le> val r \<and> val r < 2 ^ LENGTH('a)" for r :: "'a word pdd"
    by (cases r) auto
  have vb: "is_val r \<Longrightarrow> r = Val (eval \<sigma> r)" for r :: "'a word pdd"
    by (cases r) auto
  show ?thesis
  proof (cases "degree v p = 0")
    case True
    with d have e: "e = p" and a: "a = 0" and b: "b = subst s p" "is_val b"
      by (auto simp: linear_decompose_def Let_def split: if_splits)
    from vb[OF b(2)] have "b = Val (eval \<sigma> p)" using sub b(1) by simp
    moreover have "eval (\<sigma>(v := w)) p = eval \<sigma> p" using True by (rule degree_zero_eval)
    ultimately show ?thesis using a by simp
  next
    case False
    with d have d1: "degree v p = 1"
      by (auto simp: linear_decompose_def Let_def split: if_splits)
    with fd have qe: "degree v q = 0" "degree v e0 = 0" by auto
    from d d1 f have e: "e = e0" and b: "b = subst s e0" "is_val b"
      by (auto simp: linear_decompose_def Let_def split: if_splits)
    from d d1 f have a: "(is_val q \<and> a = val q) \<or> (is_val (subst s q) \<and> a = val (subst s q))"
      by (auto simp: linear_decompose_def Let_def split: if_splits)
    have aq: "eval \<sigma> q = word_of_int a \<and> 0 \<le> a \<and> a < 2 ^ LENGTH('a)"
      using a v0[of q] v0[of "subst s q"] sub[of q] by auto
    from vb[OF b(2)] have bv: "b = Val (eval \<sigma> e0)" using sub b(1) by simp
    have "eval (\<sigma>(v := w)) p = eval \<sigma> q * w + eval \<sigma> e0"
      using fs qe by (simp add: degree_zero_eval)
    with aq bv show ?thesis by simp
  qed
qed

text \<open>
  Claim C7.  Whenever \<open>linear_decompose\<close> succeeds on a polynomial \<open>p\<close> and a variable
  \<open>x\<close>, the polynomial has degree at most 1 in \<open>x\<close>, and the returned coefficient \<open>a\<close>
  and remainder \<open>e\<close> satisfy \<open>a * x + e = p\<close> modulo \<open>2^N\<close> under every valuation that
  satisfies the side conditions the call has emitted (the equality of a symbolic
  coefficient with its value; none when the coefficient was already a constant).
\<close>

theorem linear_decompose_round_trip:
  assumes "linear_decompose s x p sc = ((True, a, e, b), sc')"
      and "\<forall>c \<in> set (drop (length sc) sc'). holds \<sigma> c"
  shows "degree x p \<le> 1 \<and> word_of_int a * \<sigma> x + eval \<sigma> e = eval \<sigma> p"
proof -
  obtain q e0 where f: "factor x p = (q, e0)" by (cases "factor x p")
  note fs = factor_sound[OF f, of \<sigma>]
  show ?thesis
    using assms fs f
    by (auto simp: linear_decompose_def Let_def side_eq_holds is_val_eval split: if_splits)
qed

theorem linear_decompose_round_trip_witness:
  "linear_decompose ex_core 0 ex_poly [] =
      ((True, 3, Val 5, Val 5), [core_eq (Node 1 (Val 0) (Val 1)) (Val 3)])
   \<and> holds ex_model (core_eq (Node 1 (Val 0) (Val 1)) (Val 3))
   \<and> degree 0 ex_poly \<le> 1
   \<and> word_of_int 3 * ex_model 0 + eval ex_model (Val 5) = eval ex_model ex_poly"
proof -
  have h1: "linear_decompose ex_core 0 ex_poly [] =
      ((True, 3, Val 5, Val 5), [core_eq (Node 1 (Val 0) (Val 1)) (Val 3)])"
    by (simp add: linear_decompose_def ex_core_def ex_poly_def subst_def mk_node_def Let_def)
  have h2: "\<forall>c \<in> set (drop (length ([] :: 8 word signed_constraint list))
                    [core_eq (Node 1 (Val 0) (Val 1)) (Val 3)]). holds ex_model c"
    by (simp add: side_eq_holds ex_model_def)
  have h3: "holds ex_model (core_eq (Node 1 (Val 0) (Val 1)) (Val 3))"
    by (simp add: side_eq_holds ex_model_def)
  from linear_decompose_round_trip[OF h1 h2] h1 h3 show ?thesis by blast
qed

section \<open>Negation normalisation\<close>

text \<open>
  Claim C6.  When the coefficient \<open>k\<close> exceeds \<open>2^(N-1)\<close>, \<open>to_interval\<close> replaces the
  interval \<open>[lo, hi)\<close> by \<open>[1 - hi, 1 - lo)\<close> (values modulo \<open>2^N\<close>) and the coefficient
  by \<open>2^N - k\<close>.  Applying this transformation a second time, to the transformed
  endpoints and to \<open>2^N - k\<close>, gives back the original endpoints (values and
  polynomials) and the original coefficient.  The endpoint values are modular values,
  that is, they lie in \<open>[0, 2^N)\<close>.
\<close>

theorem negate_bounds_involution:
  fixes lo hi :: "'a::len word pdd"
  assumes "two_to_N TYPE('a) div 2 < k"
      and "0 \<le> lo_val" "lo_val < two_to_N TYPE('a)"
      and "0 \<le> hi_val" "hi_val < two_to_N TYPE('a)"
  shows "negate_bounds (k, lo_val, lo, hi_val, hi) =
           (two_to_N TYPE('a) - k, (1 - hi_val) mod two_to_N TYPE('a), pdd_sub (mk_val 1) hi,
            (1 - lo_val) mod two_to_N TYPE('a), pdd_sub (mk_val 1) lo)
       \<and> to_interval (SC False cn) False k lo_val lo hi_val hi =
           (Proper (pdd_sub (mk_val 1) hi) ((1 - hi_val) mod two_to_N TYPE('a))
                   (pdd_sub (mk_val 1) lo) ((1 - lo_val) mod two_to_N TYPE('a)),
            two_to_N TYPE('a) - k)
       \<and> negate_bounds (negate_bounds (k, lo_val, lo, hi_val, hi)) = (k, lo_val, lo, hi_val, hi)"
proof -
  have m: "(1 - (1 - x) mod two_to_N TYPE('a)) mod two_to_N TYPE('a) = x"
    if "0 \<le> x" "x < two_to_N TYPE('a)" for x
    using that by (simp add: mod_diff_right_eq)
  show ?thesis
    using assms
    by (simp add: negate_bounds_def to_interval_def is_positive_def one_minus_one_minus m)
qed

theorem negate_bounds_involution_witness:
  "two_to_N TYPE(8) div 2 < 200
   \<and> (0::int) \<le> 6 \<and> 6 < two_to_N TYPE(8) \<and> (0::int) \<le> 0 \<and> 0 < two_to_N TYPE(8)
   \<and> negate_bounds (negate_bounds (200, 6, Val 6 :: 8 word pdd, 0, Val 0)) =
       (200, 6, Val 6, 0, Val 0)"
proof -
  have h1: "two_to_N TYPE(8) div 2 < 200" by (simp add: two_to_N_def)
  have h2: "(0::int) \<le> 6" "6 < two_to_N TYPE(8)" by (simp_all add: two_to_N_def)
  have h3: "(0::int) \<le> 0" "0 < two_to_N TYPE(8)" by (simp_all add: two_to_N_def)
  from negate_bounds_involution [OF h1 h2 h3, where lo = "Val 6" and hi = "Val 0"] h1 h2 h3
  show ?thesis by blast
qed

lemma to_interval_contains:
  fixes l h :: "'a::len word" and lo hi :: "'a word pdd"
  assumes t: "to_interval c False a (uint l) lo (uint h) hi = (iv, k)"
      and a: "0 \<le> a" "a < 2 ^ LENGTH('a)"
  shows "currently_contains iv (uint (word_of_int k * w)) \<longleftrightarrow>
           (if is_positive c then word_of_int a * w - l < h - l
            else word_of_int a * w - h < l - h)"
proof (cases "two_to_N TYPE('a) div 2 < a")
  case True
  have k: "k = 2 ^ LENGTH('a) - a"
    using t True by (auto simp: to_interval_def negate_bounds_def two_to_N_def split: if_splits)
  have kw: "(word_of_int k :: 'a word) * w = - (word_of_int a * w)"
    unfolding k by (simp add: word_of_int_minus)
  have iv: "iv = (if is_positive c
                  then Proper (pdd_sub (mk_val 1) hi) (uint (1 - h)) (pdd_sub (mk_val 1) lo) (uint (1 - l))
                  else Proper (pdd_sub (mk_val 1) lo) (uint (1 - l)) (pdd_sub (mk_val 1) hi) (uint (1 - h)))"
    using t True
    by (auto simp: to_interval_def negate_bounds_def two_to_N_def uint_one_minus split: if_splits)
  show ?thesis
    unfolding iv kw
    using in_range_negate[of "word_of_int a * w" h l] in_range_negate[of "word_of_int a * w" l h]
    by (simp add: contains_word del: currently_contains.simps)
next
  case False
  have k: "k = a" using t False by (auto simp: to_interval_def split: if_splits)
  have iv: "iv = (if is_positive c then Proper lo (uint l) hi (uint h)
                  else Proper hi (uint h) lo (uint l))"
    using t False by (auto simp: to_interval_def split: if_splits)
  show ?thesis unfolding iv k by (simp add: contains_word del: currently_contains.simps)
qed

lemma to_interval_minus_one:
  fixes lo hi :: "'a::len word pdd"
  shows "snd (to_interval c False (- 1) lv lo hv hi) = - 1"
proof -
  have "(0::int) \<le> 2 ^ LENGTH('a) div 2" by (simp add: pos_imp_zdiv_nonneg_iff)
  then have "\<not> (two_to_N TYPE('a) div 2 < - 1)" unfolding two_to_N_def by linarith
  then show ?thesis by (simp add: to_interval_def)
qed

lemma linear_pattern_sound:
  fixes l h :: "'a::len word" and lo hi :: "'a word pdd"
  assumes t: "to_interval c triv a (uint l) lo (uint h) hi = (iv, k)"
      and a: "0 \<le> a" "a < 2 ^ LENGTH('a)"
      and nc: "\<not> currently_contains iv (uint (word_of_int k * w))"
      and tr: "triv \<Longrightarrow> P"
      and nt: "\<not> triv \<Longrightarrow> l \<noteq> h \<and> ((word_of_int a * w - l < h - l) \<longleftrightarrow> \<not> P)"
  shows "P \<noteq> sign c"
proof (cases triv)
  case True
  with t nc have "is_positive c" by (auto simp: to_interval_def split: if_splits)
  with tr[OF True] show ?thesis by (simp add: is_positive_def)
next
  case False
  with t have t': "to_interval c False a (uint l) lo (uint h) hi = (iv, k)" by simp
  note c = to_interval_contains[OF t' a, of w]
  from nt[OF False] have lh: "l \<noteq> h" and r: "(word_of_int a * w - l < h - l) \<longleftrightarrow> \<not> P"
    by auto
  show ?thesis
  proof (cases "is_positive c")
    case True
    with c nc r show ?thesis by (simp add: is_positive_def)
  next
    case False
    with c nc have "\<not> (word_of_int a * w - h < l - h)" by simp
    with in_range_swap[OF lh, of "word_of_int a * w"] r False show ?thesis
      by (simp add: is_positive_def)
  qed
qed

section \<open>The patterns\<close>

lemma add_non_unit_fields:
  "interval (add_non_unit_side_conds fi b1 e1 b2 e2) = interval fi"
  "coeff (add_non_unit_side_conds fi b1 e1 b2 e2) = coeff fi"
  by (simp_all add: add_non_unit_side_conds_def Let_def)

lemma fst_match_zero:
  "fst (match_zero c a1 b1 e1 a2 b2 e2 st) = (odd a1 \<and> a2 = 0 \<and> is_zero b2)"
  by (cases st) (simp add: match_zero_def Let_def)

lemma fst_match_max:
  "fst (match_max c a1 b1 e1 a2 b2 e2 st) = (a1 = 0 \<and> is_max b1 \<and> odd a2)"
  by (cases st) (simp add: match_max_def Let_def)

lemma fst_match_linear1:
  "fst (match_linear1 c a1 b1 e1 a2 b2 e2 st) = (a2 = 0 \<and> a1 \<noteq> 0)"
  by (cases st) (simp add: match_linear1_def Let_def split: prod.splits)

lemma fst_match_linear2:
  "fst (match_linear2 c a1 b1 e1 a2 b2 e2 st) = (a1 = 0 \<and> a2 \<noteq> 0)"
  by (cases st) (simp add: match_linear2_def Let_def split: prod.splits)

lemma fst_match_linear3:
  "fst (match_linear3 c a1 b1 e1 a2 b2 e2 st) = (a1 = a2 \<and> a1 \<noteq> 0)"
  by (cases st) (simp add: match_linear3_def Let_def split: prod.splits)

lemma fst_match_linear4:
  "fst (match_linear4 c a1 b1 e1 a2 b2 e2 st) = (a1 \<noteq> a2 \<and> a1 \<noteq> 0 \<and> a2 \<noteq> 0)"
  by (cases st) (simp add: match_linear4_def Let_def split: prod.splits)

lemmas fst_match = fst_match_zero fst_match_max fst_match_linear1 fst_match_linear2
  fst_match_linear3 fst_match_linear4

lemma match_fail_keeps:
  "\<not> fst (match_zero c a1 b1 e1 a2 b2 e2 (fi, l)) \<Longrightarrow>
     fst (snd (match_zero c a1 b1 e1 a2 b2 e2 (fi, l))) = fi"
  "\<not> fst (match_max c a1 b1 e1 a2 b2 e2 (fi, l)) \<Longrightarrow>
     fst (snd (match_max c a1 b1 e1 a2 b2 e2 (fi, l))) = fi"
  "\<not> fst (match_linear1 c a1 b1 e1 a2 b2 e2 (fi, l)) \<Longrightarrow>
     fst (snd (match_linear1 c a1 b1 e1 a2 b2 e2 (fi, l))) = fi"
  "\<not> fst (match_linear2 c a1 b1 e1 a2 b2 e2 (fi, l)) \<Longrightarrow>
     fst (snd (match_linear2 c a1 b1 e1 a2 b2 e2 (fi, l))) = fi"
  "\<not> fst (match_linear3 c a1 b1 e1 a2 b2 e2 (fi, l)) \<Longrightarrow>
     fst (snd (match_linear3 c a1 b1 e1 a2 b2 e2 (fi, l))) = fi"
  "\<not> fst (match_linear4 c a1 b1 e1 a2 b2 e2 (fi, l)) \<Longrightarrow>
     fst (snd (match_linear4 c a1 b1 e1 a2 b2 e2 (fi, l))) = fi"
proof -
  show "\<not> fst (match_zero c a1 b1 e1 a2 b2 e2 (fi, l)) \<Longrightarrow>
     fst (snd (match_zero c a1 b1 e1 a2 b2 e2 (fi, l))) = fi"
    by (auto simp: match_zero_def Let_def split: if_splits prod.splits)
  show "\<not> fst (match_max c a1 b1 e1 a2 b2 e2 (fi, l)) \<Longrightarrow>
     fst (snd (match_max c a1 b1 e1 a2 b2 e2 (fi, l))) = fi"
    by (auto simp: match_max_def Let_def split: if_splits prod.splits)
  show "\<not> fst (match_linear1 c a1 b1 e1 a2 b2 e2 (fi, l)) \<Longrightarrow>
     fst (snd (match_linear1 c a1 b1 e1 a2 b2 e2 (fi, l))) = fi"
    by (auto simp: match_linear1_def Let_def split: if_splits prod.splits)
  show "\<not> fst (match_linear2 c a1 b1 e1 a2 b2 e2 (fi, l)) \<Longrightarrow>
     fst (snd (match_linear2 c a1 b1 e1 a2 b2 e2 (fi, l))) = fi"
    by (auto simp: match_linear2_def Let_def split: if_splits prod.splits)
  show "\<not> fst (match_linear3 c a1 b1 e1 a2 b2 e2 (fi, l)) \<Longrightarrow>
     fst (snd (match_linear3 c a1 b1 e1 a2 b2 e2 (fi, l))) = fi"
    by (auto simp: match_linear3_def Let_def split: if_splits prod.splits)
  show "\<not> fst (match_linear4 c a1 b1 e1 a2 b2 e2 (fi, l)) \<Longrightarrow>
     fst (snd (match_linear4 c a1 b1 e1 a2 b2 e2 (fi, l))) = fi"
    by (auto simp: match_linear4_def Let_def split: if_splits prod.splits)
qed

lemma match_linear4_coeff:
  assumes "match_linear4 c a1 b1 e1 a2 b2 e2 (fi0, lf0) = (True, fi, lf)"
  shows "coeff fi = - 1"
proof -
  obtain iv k where t: "to_interval c False (- 1) a1 b1 a2 b2 = (iv, k)"
    by (cases "to_interval c False (- 1) a1 b1 a2 b2")
  with to_interval_minus_one[of c a1 b1 a2 b2] have "k = - 1" by simp
  with assms t show ?thesis
    by (auto simp: match_linear4_def Let_def add_non_unit_fields split: if_splits)
qed

lemma match_linear1_sound:
  fixes w1 w2 :: "'a::len word"
  assumes m: "match_linear1 c a1 (Val w1) e1 a2 (Val w2) e2 (fi0, lf0) = (True, fi, lf)"
      and a: "0 \<le> a1" "a1 < 2 ^ LENGTH('a)"
      and nc: "\<not> currently_contains (interval fi) (uint (word_of_int (coeff fi) * w))"
  shows "(word_of_int a1 * w + w1 \<le> word_of_int a2 * w + w2) \<noteq> sign c"
proof -
  let ?triv = "is_zero (pdd_add (Val w2) (mk_val 1))"
  obtain iv k where t: "to_interval c ?triv a1 (uint (w2 - w1 + 1))
      (pdd_add (pdd_sub e2 e1) (mk_val 1)) (uint (- w1)) (pdd_neg e1) = (iv, k)"
    by (cases "to_interval c ?triv a1 (uint (w2 - w1 + 1))
      (pdd_add (pdd_sub e2 e1) (mk_val 1)) (uint (- w1)) (pdd_neg e1)")
  from m have g: "a2 = 0" by (auto simp: match_linear1_def split: if_splits)
  from m t have f: "interval fi = iv" "coeff fi = k"
    by (auto simp: match_linear1_def Let_def pdd_sub_def mk_val_def add_non_unit_fields
        split: if_splits)
  have tr: "?triv \<longleftrightarrow> w2 + 1 = 0" by (simp add: is_zero_def mk_val_def)
  have "(word_of_int a1 * w + w1 \<le> w2) \<noteq> sign c"
  proof (rule linear_pattern_sound[OF t a])
    show "\<not> currently_contains iv (uint (word_of_int k * w))" using nc f by simp
  next
    assume ?triv
    then have "w2 = - 1" unfolding tr by (simp add: eq_neg_iff_add_eq_0)
    then show "word_of_int a1 * w + w1 \<le> w2" by simp
  next
    assume "\<not> ?triv"
    then have nz: "w2 + 1 \<noteq> 0" unfolding tr .
    have "w2 - w1 + 1 \<noteq> - w1"
    proof
      assume e: "w2 - w1 + 1 = - w1"
      have "w2 + 1 = (w2 - w1 + 1) - (- w1)" by simp
      also have "\<dots> = - w1 - (- w1)" by (simp only: e)
      also have "\<dots> = 0" by simp
      finally show False using nz by simp
    qed
    with linear1_range[OF nz, of "word_of_int a1 * w" w1]
    show "w2 - w1 + 1 \<noteq> - w1 \<and>
          (word_of_int a1 * w - (w2 - w1 + 1) < - w1 - (w2 - w1 + 1)) = (\<not> word_of_int a1 * w + w1 \<le> w2)"
      by simp
  qed
  with g show ?thesis by simp
qed

lemma match_linear2_sound:
  fixes w1 w2 :: "'a::len word"
  assumes m: "match_linear2 c a1 (Val w1) e1 a2 (Val w2) e2 (fi0, lf0) = (True, fi, lf)"
      and a: "0 \<le> a2" "a2 < 2 ^ LENGTH('a)"
      and nc: "\<not> currently_contains (interval fi) (uint (word_of_int (coeff fi) * w))"
  shows "(word_of_int a1 * w + w1 \<le> word_of_int a2 * w + w2) \<noteq> sign c"
proof -
  let ?triv = "is_zero (Val w1)"
  obtain iv k where t: "to_interval c ?triv a2 (uint (- w2)) (pdd_neg e2)
      (uint (w1 - w2)) (pdd_sub e1 e2) = (iv, k)"
    by (cases "to_interval c ?triv a2 (uint (- w2)) (pdd_neg e2)
      (uint (w1 - w2)) (pdd_sub e1 e2)")
  from m have g: "a1 = 0" by (auto simp: match_linear2_def split: if_splits)
  from m t have f: "interval fi = iv" "coeff fi = k"
    by (auto simp: match_linear2_def Let_def pdd_sub_def add_non_unit_fields split: if_splits)
  have tr: "?triv \<longleftrightarrow> w1 = 0" by (simp add: is_zero_def)
  have "(w1 \<le> word_of_int a2 * w + w2) \<noteq> sign c"
  proof (rule linear_pattern_sound[OF t a])
    show "\<not> currently_contains iv (uint (word_of_int k * w))" using nc f by simp
  next
    assume ?triv
    then show "w1 \<le> word_of_int a2 * w + w2" unfolding tr by simp
  next
    assume "\<not> ?triv"
    then have nz: "w1 \<noteq> 0" unfolding tr .
    then have "- w2 \<noteq> w1 - w2" by simp
    with linear2_range[of "word_of_int a2 * w" w2 w1]
    show "- w2 \<noteq> w1 - w2 \<and>
          (word_of_int a2 * w - - w2 < w1 - w2 - - w2) = (\<not> w1 \<le> word_of_int a2 * w + w2)"
      by simp
  qed
  with g show ?thesis by simp
qed

lemma match_linear3_sound:
  fixes w1 w2 :: "'a::len word"
  assumes m: "match_linear3 c a1 (Val w1) e1 a2 (Val w2) e2 (fi0, lf0) = (True, fi, lf)"
      and a: "0 \<le> a1" "a1 < 2 ^ LENGTH('a)"
      and nc: "\<not> currently_contains (interval fi) (uint (word_of_int (coeff fi) * w))"
  shows "(word_of_int a1 * w + w1 \<le> word_of_int a2 * w + w2) \<noteq> sign c"
proof -
  let ?triv = "val (Val w1) = val (Val w2)"
  obtain iv k where t: "to_interval c ?triv a1 (uint (- w2)) (pdd_neg e2)
      (uint (- w1)) (pdd_neg e1) = (iv, k)"
    by (cases "to_interval c ?triv a1 (uint (- w2)) (pdd_neg e2)
      (uint (- w1)) (pdd_neg e1)")
  from m have g: "a1 = a2" by (auto simp: match_linear3_def split: if_splits)
  from m t have f: "interval fi = iv" "coeff fi = k"
    by (auto simp: match_linear3_def Let_def add_non_unit_fields split: if_splits)
  have tr: "?triv \<longleftrightarrow> w1 = w2" by (simp add: word_uint_eq_iff)
  have "(word_of_int a1 * w + w1 \<le> word_of_int a1 * w + w2) \<noteq> sign c"
  proof (rule linear_pattern_sound[OF t a])
    show "\<not> currently_contains iv (uint (word_of_int k * w))" using nc f by simp
  next
    assume ?triv
    then show "word_of_int a1 * w + w1 \<le> word_of_int a1 * w + w2" unfolding tr by simp
  next
    assume "\<not> ?triv"
    then have nz: "w1 \<noteq> w2" unfolding tr .
    then have "- w2 \<noteq> - w1" by simp
    with linear3_range[OF nz, of "word_of_int a1 * w"]
    show "- w2 \<noteq> - w1 \<and>
          (word_of_int a1 * w - - w2 < - w1 - - w2) =
          (\<not> word_of_int a1 * w + w1 \<le> word_of_int a1 * w + w2)"
      by simp
  qed
  with g show ?thesis by simp
qed

lemma match_zero_sound:
  fixes w1 w2 :: "'a::len word"
  assumes m: "match_zero c a1 (Val w1) e1 a2 (Val w2) e2 (fi0, lf0) = (True, fi, lf)"
      and nc: "\<not> currently_contains (interval fi) (uint (word_of_int (coeff fi) * w))"
  shows "(word_of_int a1 * w + w1 \<le> word_of_int a2 * w + w2) \<noteq> sign c"
proof -
  define inv where "inv = snd (mult_inverse a1 LENGTH('a))"
  define n where "n = (- uint w1 * inv) mod 2 ^ LENGTH('a)"
  from m have g: "odd a1" "a2 = 0" "w2 = 0"
    by (auto simp: match_zero_def is_zero_def split: if_splits)
  have iw: "(word_of_int a1 :: 'a word) * word_of_int inv = 1"
    unfolding inv_def by (rule word_inverse[OF g(1)])
  have nw: "n = uint (- w1 * word_of_int inv)"
    unfolding n_def by (simp add: uint_word_of_int[symmetric] wi_hom_syms)
  have nb: "0 \<le> n" "n < 2 ^ LENGTH('a)" by (simp_all add: n_def)
  have M: "(1::int) < 2 ^ LENGTH('a)" by simp
  have xb: "0 \<le> uint w" "uint w < 2 ^ LENGTH('a)" by simp_all
  from m have f: "coeff fi = 1"
    "interval fi = (if is_positive c
       then Proper (pdd_add (pdd_scale inv (pdd_neg e1)) (mk_val 1)) ((n + 1) mod 2 ^ LENGTH('a))
                   (pdd_scale inv (pdd_neg e1)) n
       else Proper (pdd_scale inv (pdd_neg e1)) n
                   (pdd_add (pdd_scale inv (pdd_neg e1)) (mk_val 1)) ((n + 1) mod 2 ^ LENGTH('a)))"
    by (auto simp: match_zero_def Let_def two_to_N_def inv_def n_def split: if_splits)
  have sol: "word_of_int a1 * w + w1 = 0 \<longleftrightarrow> uint w = n"
    unfolding nw word_linear_solution[OF iw] by (simp add: word_uint_eq_iff)
  have "(word_of_int a1 * w + w1 \<le> 0) \<noteq> sign c"
  proof (cases "is_positive c")
    case True
    with nc f unit_interval_pos[OF nb xb M] have "uint w = n" by simp
    with sol True show ?thesis by (simp add: is_positive_def)
  next
    case False
    with nc f unit_interval_neg[OF nb xb M] have "uint w \<noteq> n" by simp
    with sol False show ?thesis by (simp add: is_positive_def)
  qed
  with g show ?thesis by simp
qed

lemma match_max_sound:
  fixes w1 w2 :: "'a::len word"
  assumes m: "match_max c a1 (Val w1) e1 a2 (Val w2) e2 (fi0, lf0) = (True, fi, lf)"
      and nc: "\<not> currently_contains (interval fi) (uint (word_of_int (coeff fi) * w))"
  shows "(word_of_int a1 * w + w1 \<le> word_of_int a2 * w + w2) \<noteq> sign c"
proof -
  define inv where "inv = snd (mult_inverse a2 LENGTH('a))"
  define n where "n = ((- 1 - uint w2) * inv) mod 2 ^ LENGTH('a)"
  from m have g: "odd a2" "a1 = 0" "w1 = - 1"
    by (auto simp: match_max_def is_max_def split: if_splits)
  have iw: "(word_of_int a2 :: 'a word) * word_of_int inv = 1"
    unfolding inv_def by (rule word_inverse[OF g(1)])
  have n1: "n = uint ((- 1 - w2) * word_of_int inv)"
    unfolding n_def by (simp add: uint_word_of_int[symmetric] wi_hom_syms)
  have e: "(- 1 - w2) * (word_of_int inv :: 'a word) = - (w2 + 1) * word_of_int inv"
    by (simp add: algebra_simps)
  have nw: "n = uint (- (w2 + 1) * word_of_int inv)"
    unfolding n1 e ..
  have nb: "0 \<le> n" "n < 2 ^ LENGTH('a)" by (simp_all add: n_def)
  have M: "(1::int) < 2 ^ LENGTH('a)" by simp
  have xb: "0 \<le> uint w" "uint w < 2 ^ LENGTH('a)" by simp_all
  let ?lo = "pdd_scale inv (pdd_sub (mk_val (- 1)) e2)"
  from m have f: "coeff fi = 1"
    "interval fi = (if is_positive c
       then Proper (pdd_add ?lo (mk_val 1)) ((n + 1) mod 2 ^ LENGTH('a)) ?lo n
       else Proper ?lo n (pdd_add ?lo (mk_val 1)) ((n + 1) mod 2 ^ LENGTH('a)))"
    by (auto simp: match_max_def Let_def two_to_N_def inv_def n_def split: if_splits)
  have "word_of_int a2 * w + (w2 + 1) = 0 \<longleftrightarrow> uint w = n"
    unfolding nw word_linear_solution[OF iw] by (simp add: word_uint_eq_iff)
  then have sol: "- 1 \<le> word_of_int a2 * w + w2 \<longleftrightarrow> uint w = n"
    unfolding word_minus_one_le by (simp add: add.assoc)
  have "(- 1 \<le> word_of_int a2 * w + w2) \<noteq> sign c"
  proof (cases "is_positive c")
    case True
    with nc f unit_interval_pos[OF nb xb M] have "uint w = n" by simp
    with sol True show ?thesis by (simp add: is_positive_def)
  next
    case False
    with nc f unit_interval_neg[OF nb xb M] have "uint w \<noteq> n" by simp
    with sol False show ?thesis by (simp add: is_positive_def)
  qed
  with g show ?thesis by simp
qed

section \<open>Pattern priority\<close>

text \<open>The pattern chain of the source, as a function of the decomposition.\<close>

lemma get_interval_ule_chain:
  assumes d1: "linear_decompose s v (ule_lhs c) (side_cond fi0) = ((True, a1, e1, b1), sc1)"
      and d2: "linear_decompose s v (ule_rhs c) sc1 = ((True, a2, e2, b2), sc2)"
      and nz: "a1 \<noteq> 0 \<or> a2 \<noteq> 0"
  shows "get_interval_ule s c v (fi0, lf0) =
           first_match
             [match_zero c a1 b1 e1 a2 b2 e2, match_max c a1 b1 e1 a2 b2 e2,
              match_linear1 c a1 b1 e1 a2 b2 e2, match_linear2 c a1 b1 e1 a2 b2 e2,
              match_linear3 c a1 b1 e1 a2 b2 e2, match_linear4 c a1 b1 e1 a2 b2 e2]
             (fi0\<lparr>coeff := 1, src := src fi0 @ [c], side_cond := sc2\<rparr>, lf0)"
    and "fst (get_interval_ule s c v (fi0, lf0))"
proof -
  let ?st = "(fi0\<lparr>coeff := 1, src := src fi0 @ [c], side_cond := sc2\<rparr>, lf0)"
  obtain r1 st1 where m1: "match_zero c a1 b1 e1 a2 b2 e2 ?st = (r1, st1)" by (cases "match_zero c a1 b1 e1 a2 b2 e2 ?st")
  obtain r2 st2 where m2: "match_max c a1 b1 e1 a2 b2 e2 st1 = (r2, st2)" by (cases "match_max c a1 b1 e1 a2 b2 e2 st1")
  obtain r3 st3 where m3: "match_linear1 c a1 b1 e1 a2 b2 e2 st2 = (r3, st3)" by (cases "match_linear1 c a1 b1 e1 a2 b2 e2 st2")
  obtain r4 st4 where m4: "match_linear2 c a1 b1 e1 a2 b2 e2 st3 = (r4, st4)" by (cases "match_linear2 c a1 b1 e1 a2 b2 e2 st3")
  obtain r5 st5 where m5: "match_linear3 c a1 b1 e1 a2 b2 e2 st4 = (r5, st5)" by (cases "match_linear3 c a1 b1 e1 a2 b2 e2 st4")
  obtain r6 st6 where m6: "match_linear4 c a1 b1 e1 a2 b2 e2 st5 = (r6, st6)" by (cases "match_linear4 c a1 b1 e1 a2 b2 e2 st5")
  have r3: "r3 = (a2 = 0 \<and> a1 \<noteq> 0)" using fst_match_linear1[of c a1 b1 e1 a2 b2 e2 st2] m3 by simp
  have r4: "r4 = (a1 = 0 \<and> a2 \<noteq> 0)" using fst_match_linear2[of c a1 b1 e1 a2 b2 e2 st3] m4 by simp
  have r5: "r5 = (a1 = a2 \<and> a1 \<noteq> 0)" using fst_match_linear3[of c a1 b1 e1 a2 b2 e2 st4] m5 by simp
  have r6: "r6 = (a1 \<noteq> a2 \<and> a1 \<noteq> 0 \<and> a2 \<noteq> 0)" using fst_match_linear4[of c a1 b1 e1 a2 b2 e2 st5] m6 by simp
  have some: "r3 \<or> r4 \<or> r5 \<or> r6" using nz r3 r4 r5 r6 by auto
  have nz': "\<not> (a1 = 0 \<and> a2 = 0)" using nz by auto
  show "get_interval_ule s c v (fi0, lf0) =
           first_match
             [match_zero c a1 b1 e1 a2 b2 e2, match_max c a1 b1 e1 a2 b2 e2,
              match_linear1 c a1 b1 e1 a2 b2 e2, match_linear2 c a1 b1 e1 a2 b2 e2,
              match_linear3 c a1 b1 e1 a2 b2 e2, match_linear4 c a1 b1 e1 a2 b2 e2] ?st"
    using some
    by (auto simp add: get_interval_ule_def d1 d2 nz' m1 m2 m3 m4 m5 m6 Let_def)
  show "fst (get_interval_ule s c v (fi0, lf0))"
    using some
    by (auto simp add: get_interval_ule_def d1 d2 nz' m1 m2 m3 m4 m5 m6 Let_def)
qed

lemma first_match_append:
  "fst (first_match ms st) \<Longrightarrow> first_match (ms @ ms') st = first_match ms st"
  by (induction ms arbitrary: st) (auto split: prod.splits)

lemma first_match_success:
  assumes "first_match ms st = (True, st')"
      and "\<And>m fi l. m \<in> set ms \<Longrightarrow> \<not> fst (m (fi, l)) \<Longrightarrow> fst (snd (m (fi, l))) = fi"
  shows "\<exists>m \<in> set ms. \<exists>l. m (fst st, l) = (True, st')"
  using assms
proof (induction ms arbitrary: st)
  case Nil
  then show ?case by simp
next
  case (Cons m ms)
  obtain r st1 where m: "m st = (r, st1)" by (cases "m st")
  show ?case
  proof (cases r)
    case True
    with Cons.prems(1) m have "m (fst st, snd st) = (True, st')" by simp
    then show ?thesis by (intro bexI[of _ m] exI[of _ "snd st"]) simp_all
  next
    case False
    with Cons.prems(1) m have f: "first_match ms st1 = (True, st')" by simp
    have "fst (snd (m (fst st, snd st))) = fst st"
      by (rule Cons.prems(2)) (use m False in auto)
    with m have e: "fst st1 = fst st" by simp
    have "\<exists>m \<in> set ms. \<exists>l. m (fst st1, l) = (True, st')"
      by (rule Cons.IH[OF f]) (rule Cons.prems(2), auto)
    with e show ?thesis by auto
  qed
qed

text \<open>
  Claim C5.  On the \<open>ule\<close> path, once both linear decompositions have succeeded and
  not both coefficients are zero, the result of the matcher is the result of the first
  pattern that matches, in the fixed order \<open>match_zero\<close>, \<open>match_max\<close>,
  \<open>match_linear1\<close>, \<open>match_linear2\<close>, \<open>match_linear3\<close>, \<open>match_linear4\<close>; the
  patterns after the first match are not run, and one of them always matches.  The
  patterns \<open>match_non_zero\<close> and \<open>match_non_max\<close> stand behind a guard that is
  \<open>false\<close> in the source; placed after the six, they are never reached and the result
  is the same.
\<close>

theorem get_interval_ule_first_match:
  assumes d1: "linear_decompose s v (ule_lhs c) (side_cond fi0) = ((True, a1, e1, b1), sc1)"
      and d2: "linear_decompose s v (ule_rhs c) sc1 = ((True, a2, e2, b2), sc2)"
      and nz: "a1 \<noteq> 0 \<or> a2 \<noteq> 0"
  shows "get_interval_ule s c v (fi0, lf0) =
           first_match
             [match_zero c a1 b1 e1 a2 b2 e2, match_max c a1 b1 e1 a2 b2 e2,
              match_linear1 c a1 b1 e1 a2 b2 e2, match_linear2 c a1 b1 e1 a2 b2 e2,
              match_linear3 c a1 b1 e1 a2 b2 e2, match_linear4 c a1 b1 e1 a2 b2 e2]
             (fi0\<lparr>coeff := 1, src := src fi0 @ [c], side_cond := sc2\<rparr>, lf0)
       \<and> fst (get_interval_ule s c v (fi0, lf0))
       \<and> get_interval_ule s c v (fi0, lf0) =
           first_match
             ([match_zero c a1 b1 e1 a2 b2 e2, match_max c a1 b1 e1 a2 b2 e2,
               match_linear1 c a1 b1 e1 a2 b2 e2, match_linear2 c a1 b1 e1 a2 b2 e2,
               match_linear3 c a1 b1 e1 a2 b2 e2, match_linear4 c a1 b1 e1 a2 b2 e2] @
              [match_non_zero c a1 b1 e1 (ule_rhs c), match_non_max c (ule_lhs c) a2 b2 e2])
             (fi0\<lparr>coeff := 1, src := src fi0 @ [c], side_cond := sc2\<rparr>, lf0)"
proof -
  note ch = get_interval_ule_chain[OF d1 d2 nz, of lf0]
  from ch(2) have "fst (first_match
             [match_zero c a1 b1 e1 a2 b2 e2, match_max c a1 b1 e1 a2 b2 e2,
              match_linear1 c a1 b1 e1 a2 b2 e2, match_linear2 c a1 b1 e1 a2 b2 e2,
              match_linear3 c a1 b1 e1 a2 b2 e2, match_linear4 c a1 b1 e1 a2 b2 e2]
             (fi0\<lparr>coeff := 1, src := src fi0 @ [c], side_cond := sc2\<rparr>, lf0))"
    by (simp only: ch(1))
  note a = first_match_append[OF this,
      of "[match_non_zero c a1 b1 e1 (ule_rhs c), match_non_max c (ule_lhs c) a2 b2 e2]"]
  show ?thesis
    by (intro conjI, rule ch(1), rule ch(2), simp only: a ch(1))
qed

theorem get_interval_ule_first_match_witness:
  "linear_decompose ex_core 0 (ule_lhs ex_le5) (side_cond fi_record_init) = ((True, 1, Val 0, Val 0), [])
   \<and> linear_decompose ex_core 0 (ule_rhs ex_le5) [] = ((True, 0, Val 5, Val 5), [])
   \<and> (1::int) \<noteq> 0
   \<and> fst (get_interval_ule ex_core ex_le5 0 (fi_record_init, []))
   \<and> get_interval_ule ex_core ex_le5 0 (fi_record_init, []) =
       match_linear1 ex_le5 1 (Val 0) (Val 0) 0 (Val 5) (Val 5)
         (\<lparr>interval = Full, side_cond = [], src = [ex_le5], deps = [], coeff = 1,
           bit_width = 0\<rparr>, ''match_max'')
   \<and> get_interval_ule ex_core ex_le5 0 (fi_record_init, []) =
       (True,
        \<lparr>interval = Proper (Val 6) 6 (Val 0) 0, side_cond = [], src = [ex_le5], deps = [],
         coeff = 1, bit_width = 0\<rparr>,
        ''match_linear1'')"
proof -
  have h1: "linear_decompose ex_core 0 (ule_lhs ex_le5) (side_cond (fi_record_init :: 8 word fi_record)) =
              ((True, 1, Val 0, Val 0), [])"
    by (simp add: ex_le5_def linear_decompose_var fi_record_init_def)
  have h2: "linear_decompose ex_core 0 (ule_rhs ex_le5) [] = ((True, 0, Val 5, Val 5), [])"
    by (simp add: ex_le5_def linear_decompose_def subst_def Let_def)
  have h3: "(1::int) \<noteq> 0 \<or> (0::int) \<noteq> 0" by simp
  note t = get_interval_ule_first_match[OF h1 h2 h3, of "[]"]
  have z: "match_zero ex_le5 1 (Val 0) (Val 0) 0 (Val 5) (Val 5) (fi, lf) = (False, fi, ''match_zero'')" for fi lf
    by (simp add: match_zero_def is_zero_def)
  have m: "match_max ex_le5 1 (Val 0) (Val 0) 0 (Val 5) (Val 5) (fi, lf) = (False, fi, ''match_max'')" for fi lf
    by (simp add: match_max_def)
  have l: "match_linear1 ex_le5 1 (Val 0) (Val 0) 0 (Val 5) (Val 5)
         (\<lparr>interval = Full, side_cond = [], src = [ex_le5], deps = [], coeff = 1,
           bit_width = 0\<rparr>, ''match_max'') = 
       (True,
        \<lparr>interval = Proper (Val 6) 6 (Val 0) 0, side_cond = [], src = [ex_le5], deps = [],
         coeff = 1, bit_width = 0\<rparr>,
        ''match_linear1'')"
    by (simp add: match_linear1_def to_interval_def add_non_unit_side_conds_def push_eq_def
        is_zero_def mk_val_def pdd_sub_def two_to_N_def is_positive_def ex_le5_def Let_def)
  have e: "side_cond (fi_record_init :: 8 word fi_record) = []" "src (fi_record_init :: 8 word fi_record) = []"
    by (simp_all add: fi_record_init_def)
  have r: "get_interval_ule ex_core ex_le5 0 (fi_record_init, []) =
       match_linear1 ex_le5 1 (Val 0) (Val 0) 0 (Val 5) (Val 5)
         (\<lparr>interval = Full, side_cond = [], src = [ex_le5], deps = [], coeff = 1,
           bit_width = 0\<rparr>, ''match_max'')"
    using t by (simp add: z m l e fi_record_init_def)
  from t have f: "fst (get_interval_ule ex_core ex_le5 0 (fi_record_init, []))" by blast
  from h1 h2 r f l show ?thesis by simp
qed

section \<open>Unit intervals from an invertible coefficient\<close>

text \<open>
  Claim C2.  For a \<open>ule\<close> constraint whose left side decomposes to \<open>a1 * v + b1\<close> with
  \<open>a1\<close> odd and whose right side has coefficient zero and value zero, \<open>get_interval\<close>
  succeeds with coefficient 1.  With \<open>n = - b1 * a1\<^sup>-\<^sup>1 mod 2^N\<close>, the forbidden interval
  of the positive constraint is \<open>[n + 1, n)\<close>, which contains every value but \<open>n\<close>, and
  the forbidden interval of the negated constraint is its complement \<open>[n, n + 1)\<close>,
  which contains \<open>n\<close> alone.  For \<open>a1 = 3\<close>, \<open>b1 = 7\<close> and \<open>N = 8\<close> the value is
  \<open>n = 83\<close>, the unique solution of \<open>3 * v + 7 = 0\<close>.
\<close>

theorem match_zero_interval:
  fixes s :: "'a::len word core"
  assumes d1: "linear_decompose s v p (side_cond fi0) = ((True, a1, e1, b1), sc1)"
      and d2: "linear_decompose s v q sc1 = ((True, 0, e2, Val 0), sc2)"
      and odd: "odd a1"
  shows "\<exists>fi lf a1_inv lo hi.
           get_interval s (SC sg (Ule p q)) v (fi0, lf0) = (True, fi, lf)
         \<and> coeff fi = 1
         \<and> (a1 * a1_inv) mod 2 ^ LENGTH('a) = 1
         \<and> interval fi =
             (let n = (- val b1 * a1_inv) mod 2 ^ LENGTH('a) in
              if sg then Proper lo n hi ((n + 1) mod 2 ^ LENGTH('a))
              else Proper hi ((n + 1) mod 2 ^ LENGTH('a)) lo n)
         \<and> (\<forall>x. 0 \<le> x \<and> x < 2 ^ LENGTH('a) \<longrightarrow>
               (currently_contains (interval fi) x \<longleftrightarrow>
                  (if sg then x = (- val b1 * a1_inv) mod 2 ^ LENGTH('a)
                   else x \<noteq> (- val b1 * a1_inv) mod 2 ^ LENGTH('a))))"
proof -
  define inv where "inv = snd (mult_inverse a1 LENGTH('a))"
  define n where "n = (- val b1 * inv) mod 2 ^ LENGTH('a)"
  have inv: "(a1 * inv) mod 2 ^ LENGTH('a) = 1"
    unfolding inv_def using mult_inverse_odd(2)[OF odd, of "LENGTH('a)"] by simp
  have n: "0 \<le> n" "n < 2 ^ LENGTH('a)" by (simp_all add: n_def)
  have M: "(1::int) < 2 ^ LENGTH('a)" by (simp add: one_less_power)
  let ?lo = "pdd_scale inv (pdd_neg e1)"
  let ?hi = "pdd_add ?lo (mk_val 1)"
  let ?iv = "if sg then Proper ?lo n ?hi ((n + 1) mod 2 ^ LENGTH('a))
             else Proper ?hi ((n + 1) mod 2 ^ LENGTH('a)) ?lo n"
  let ?sc = "if Val 0 \<noteq> e2 then sc2 @ [core_eq (Val 0) e2] else sc2"
  let ?fi = "fi0\<lparr>bit_width := size_of s v, coeff := 1, src := src fi0 @ [SC sg (Ule p q)],
                 side_cond := ?sc, interval := ?iv\<rparr>"
  have nz: "a1 \<noteq> 0" using odd by auto
  have g: "get_interval s (SC sg (Ule p q)) v (fi0, lf0) = (True, ?fi, ''match_zero'')"
    using d1 d2 odd nz
    by (simp add: get_interval_def get_interval_ule_def match_zero_def is_zero_def Let_def
        is_positive_def two_to_N_def inv_def n_def)
  have c: "currently_contains ?iv x \<longleftrightarrow> (if sg then x = n else x \<noteq> n)"
    if "0 \<le> x \<and> x < 2 ^ LENGTH('a)" for x
    using unit_interval_pos[OF n(1) n(2) _ _ M, of x] unit_interval_neg[OF n(1) n(2) _ _ M, of x] that
    by simp
  show ?thesis
    apply (rule exI[of _ ?fi], rule exI[of _ "''match_zero''"], rule exI[of _ inv])
    apply (rule exI[of _ ?lo], rule exI[of _ ?hi])
    using g inv c by (simp add: n_def Let_def)
qed

theorem match_zero_interval_witness:
  "linear_decompose ex_core 0 ex_zero_lhs (side_cond fi_record_init) = ((True, 3, Val 7, Val 7), [])
   \<and> linear_decompose ex_core 0 (Val 0) [] = ((True, 0, Val 0, Val 0), [])
   \<and> odd (3::int)
   \<and> fst (get_interval ex_core (SC False (Ule ex_zero_lhs (Val 0))) 0 (fi_record_init, []))
   \<and> get_interval ex_core (SC False (Ule ex_zero_lhs (Val 0))) 0 (fi_record_init, []) =
       (True,
        \<lparr>interval = Proper (Val 84) 84 (Val 83) 83, side_cond = [],
         src = [SC False (Ule ex_zero_lhs (Val 0))], deps = [], coeff = 1, bit_width = 8\<rparr>,
        ''match_zero'')
   \<and> (3 * 171) mod 2 ^ 8 = (1::int) \<and> (- 7 * 171) mod 2 ^ 8 = (83::int)
   \<and> eval (\<lambda>_. 83) ex_zero_lhs = 0"
proof -
  have h1: "linear_decompose ex_core 0 ex_zero_lhs (side_cond (fi_record_init :: 8 word fi_record)) = ((True, 3, Val 7, Val 7), [])"
    by (simp add: linear_decompose_def ex_zero_lhs_def subst_def Let_def fi_record_init_def)
  have h2: "linear_decompose ex_core 0 (Val 0) [] = ((True, 0, Val 0, Val 0), [])"
    by (simp add: linear_decompose_def subst_def Let_def)
  have h3: "odd (3::int)" by simp
  from match_zero_interval[OF h1 h2 h3, of False "[]"]
  have c1: "fst (get_interval ex_core (SC False (Ule ex_zero_lhs (Val 0))) 0 (fi_record_init, []))"
    by auto
  have c2: "get_interval ex_core (SC False (Ule ex_zero_lhs (Val 0))) 0 (fi_record_init, []) =
       (True,
        \<lparr>interval = Proper (Val 84) 84 (Val 83) 83, side_cond = [],
         src = [SC False (Ule ex_zero_lhs (Val 0))], deps = [], coeff = 1, bit_width = 8\<rparr>,
        ''match_zero'')"
    using h1 h2
    by (simp add: get_interval_def get_interval_ule_def match_zero_def is_zero_def Let_def
        is_positive_def two_to_N_def mult_inverse_3_8 fi_record_init_def size_of_def
        pdd_scale.simps mk_val_def)
  have c3: "(3 * 171) mod 2 ^ 8 = (1::int)" "(- 7 * 171) mod 2 ^ 8 = (83::int)" by simp_all
  have c4: "eval (\<lambda>_. 83) ex_zero_lhs = 0" by (simp add: ex_zero_lhs_def)
  from h1 h2 h3 c1 c2 c3 c4 show ?thesis by blast
qed

section \<open>The overflow path\<close>

text \<open>
  Claim C3.  At bit-width 8, for the positive constraint \<open>umul_ovfl(v, q)\<close> where \<open>q\<close>
  does not mention \<open>v\<close> and evaluates to 3, \<open>get_interval\<close> succeeds and returns the
  proper interval \<open>[0, 86)\<close> (that is \<open>A + 1\<close> for \<open>A = 255 div 3 = 85\<close>), with the one
  side condition \<open>q \<le> 3\<close> bounding the other operand.  The interval contains exactly
  the values \<open>x\<close> with \<open>x * 3 < 256\<close>.
\<close>

theorem umul_ovfl_three:
  fixes s :: "8 word core"
  assumes "degree v q = 0" and "subst s q = Val 3"
  shows "get_interval s (SC False (Umul_ovfl (pdd_var v) q)) v (fi0, lf0) =
           (True,
            fi0\<lparr>bit_width := 8, coeff := 1,
                src := src fi0 @ [SC False (Umul_ovfl (pdd_var v) q)],
                side_cond := side_cond fi0 @ [cs_ule q (mk_val 3)],
                interval := Proper (mk_val 0) 0 (mk_val 86) 86\<rparr>,
            lf0)
       \<and> (\<forall>x. 0 \<le> x \<and> x < 256 \<longrightarrow>
             (currently_contains (Proper (mk_val 0 :: 8 word pdd) 0 (mk_val 86) 86) x \<longleftrightarrow> x * 3 < 256))"
proof -
  have "get_interval s (SC False (Umul_ovfl (pdd_var v) q)) v (fi0, lf0) =
           (True,
            fi0\<lparr>bit_width := 8, coeff := 1,
                src := src fi0 @ [SC False (Umul_ovfl (pdd_var v) q)],
                side_cond := side_cond fi0 @ [cs_ule q (mk_val 3)],
                interval := Proper (mk_val 0) 0 (mk_val 86) 86\<rparr>,
            lf0)"
    using assms
    by (simp add: get_interval_def get_interval_umul_ovfl_def linear_decompose_var
        linear_decompose_free is_zero_def is_positive_def max_value_def size_of_def Let_def)
  then show ?thesis by auto
qed

theorem umul_ovfl_three_witness:
  "degree 0 (Node 1 (Val 0) (Val 1) :: 8 word pdd) = 0
   \<and> subst ex_core (Node 1 (Val 0) (Val 1)) = Val 3
   \<and> get_interval ex_core (SC False (Umul_ovfl (pdd_var 0) (Node 1 (Val 0) (Val 1)))) 0 (fi_record_init, []) =
       (True,
        \<lparr>interval = Proper (Val 0) 0 (Val 86) 86,
         side_cond = [cs_ule (Node 1 (Val 0) (Val 1)) (Val 3)],
         src = [SC False (Umul_ovfl (pdd_var 0) (Node 1 (Val 0) (Val 1)))],
         deps = [], coeff = 1, bit_width = 8\<rparr>, [])
   \<and> currently_contains (Proper (mk_val 0 :: 8 word pdd) 0 (mk_val 86) 86) 85
   \<and> \<not> currently_contains (Proper (mk_val 0 :: 8 word pdd) 0 (mk_val 86) 86) 86"
proof -
  have h1: "degree 0 (Node 1 (Val 0) (Val 1) :: 8 word pdd) = 0" by simp
  have h2: "subst ex_core (Node 1 (Val 0) (Val 1)) = Val 3"
    by (simp add: subst_def ex_core_def)
  from umul_ovfl_three[OF h1 h2, of fi_record_init "[]"] h1 h2
  show ?thesis by (simp add: fi_record_init_def mk_val_def)
qed

text \<open>
  Claim C9, as amended.  For a positive \<open>umul_ovfl\<close> constraint where exactly one
  operand decomposes to coefficient 1 and offset zero and the decomposition of the
  other operand fails, \<open>get_interval\<close> succeeds and returns the proper interval
  \<open>[0, 2)\<close> with coefficient 1.  The branch adds no side condition of its own, but the
  side conditions that the two linear decompositions have emitted (at most one
  coefficient equality each) stay in the record.
\<close>

theorem umul_ovfl_bare_variable:
  assumes d1: "linear_decompose s v p (side_cond fi0) = ((ok1, a1, e1, b1), sc1)"
      and d2: "linear_decompose s v q sc1 = ((ok2, a2, e2, b2), sc2)"
      and one: "(ok1 \<and> \<not> ok2 \<and> a1 = 1 \<and> is_zero b1) \<or> (ok2 \<and> \<not> ok1 \<and> a2 = 1 \<and> is_zero b2)"
  shows "get_interval s (SC False (Umul_ovfl p q)) v (fi0, lf0) =
           (True,
            fi0\<lparr>bit_width := size_of s v, coeff := 1,
                src := src fi0 @ [SC False (Umul_ovfl p q)],
                side_cond := sc2,
                interval := Proper (mk_val 0) 0 (mk_val 2) 2\<rparr>,
            lf0)
       \<and> (\<exists>new. sc2 = side_cond fi0 @ new \<and> length new \<le> 2
                \<and> (\<forall>c \<in> set new. \<exists>q' r. c = core_eq q' r))"
proof -
  have g: "get_interval s (SC False (Umul_ovfl p q)) v (fi0, lf0) =
           (True,
            fi0\<lparr>bit_width := size_of s v, coeff := 1,
                src := src fi0 @ [SC False (Umul_ovfl p q)],
                side_cond := sc2,
                interval := Proper (mk_val 0) 0 (mk_val 2) 2\<rparr>,
            lf0)"
    using assms
    by (auto simp: get_interval_def get_interval_umul_ovfl_def is_positive_def Let_def)
  from linear_decompose_side_cond[OF d1] linear_decompose_side_cond[OF d2]
  have "\<exists>new. sc2 = side_cond fi0 @ new \<and> length new \<le> 2
                \<and> (\<forall>c \<in> set new. \<exists>q' r. c = core_eq q' r)"
    by (elim disjE exE; simp; blast)
  with g show ?thesis by blast
qed

lemma ex_unevaluable_decompose:
  "linear_decompose ex_core 0 ex_unevaluable [] =
     ((False, 3, Node 2 (Val 0) (Val 1), Node 2 (Val 0) (Val 1)),
      [core_eq (Node 1 (Val 0) (Val 1)) (Val 3)])"
  by (simp add: linear_decompose_def ex_unevaluable_def ex_core_def subst_def mk_node_def Let_def)

lemma ex_bare_get_interval:
  "get_interval ex_core (SC False (Umul_ovfl (pdd_var 0) ex_unevaluable)) 0 (fi_record_init, []) =
       (True,
        \<lparr>interval = Proper (Val 0) 0 (Val 2) 2,
         side_cond = [core_eq (Node 1 (Val 0) (Val 1)) (Val 3)],
         src = [SC False (Umul_ovfl (pdd_var 0) ex_unevaluable)],
         deps = [], coeff = 1, bit_width = 8\<rparr>, [])"
  by (simp add: get_interval_def get_interval_umul_ovfl_def linear_decompose_var
      ex_unevaluable_decompose fi_record_init_def is_zero_def is_positive_def mk_val_def
      size_of_def Let_def)

theorem umul_ovfl_bare_variable_witness:
  "linear_decompose ex_core 0 (pdd_var 0) (side_cond fi_record_init) = ((True, 1, Val 0, Val 0), [])
   \<and> linear_decompose ex_core 0 ex_unevaluable [] =
        ((False, 3, Node 2 (Val 0) (Val 1), Node 2 (Val 0) (Val 1)),
         [core_eq (Node 1 (Val 0) (Val 1)) (Val 3)])
   \<and> is_zero (Val 0 :: 8 word pdd)
   \<and> get_interval ex_core (SC False (Umul_ovfl (pdd_var 0) ex_unevaluable)) 0 (fi_record_init, []) =
       (True,
        \<lparr>interval = Proper (Val 0) 0 (Val 2) 2,
         side_cond = [core_eq (Node 1 (Val 0) (Val 1)) (Val 3)],
         src = [SC False (Umul_ovfl (pdd_var 0) ex_unevaluable)],
         deps = [], coeff = 1, bit_width = 8\<rparr>, [])"
proof -
  have h1: "linear_decompose ex_core 0 (pdd_var 0) (side_cond (fi_record_init :: 8 word fi_record)) =
              ((True, 1, Val 0, Val 0), [])"
    by (simp add: linear_decompose_var fi_record_init_def)
  note h2 = ex_unevaluable_decompose
  have h3: "is_zero (Val 0 :: 8 word pdd)" by (simp add: is_zero_def)
  have h4: "(True \<and> \<not> False \<and> (1::int) = 1 \<and> is_zero (Val 0 :: 8 word pdd)) \<or>
            (False \<and> \<not> True \<and> (3::int) = 1 \<and> is_zero (Node 2 (Val 0) (Val 1) :: 8 word pdd))"
    using h3 by simp
  from umul_ovfl_bare_variable[OF h1 h2 h4, of "[]"] h1 h2 h3
  show ?thesis by (simp add: fi_record_init_def mk_val_def size_of_def)
qed

text \<open>
  The claim C9 as stated, with no side condition added, fails: for \<open>umul_ovfl(v0, v1 * v0 + v2)\<close>
  with \<open>v1 = 3\<close> assigned and \<open>v2\<close> unassigned, the first operand is the bare variable,
  the decomposition of the second fails on its remainder after it has emitted
  \<open>v1 = 3\<close>, and the matcher succeeds with that side condition in the record.
\<close>

theorem umul_ovfl_bare_variable_counterexample:
  "fst (linear_decompose ex_core 0 (pdd_var 0) []) = (True, 1, Val 0, Val 0)
   \<and> \<not> fst (fst (linear_decompose ex_core 0 ex_unevaluable []))
   \<and> fst (get_interval ex_core (SC False (Umul_ovfl (pdd_var 0) ex_unevaluable)) 0 (fi_record_init, []))
   \<and> side_cond (fi_record_init :: 8 word fi_record) = []
   \<and> side_cond (fst (snd (get_interval ex_core (SC False (Umul_ovfl (pdd_var 0) ex_unevaluable)) 0
                              (fi_record_init, [])))) =
        [core_eq (Node 1 (Val 0) (Val 1)) (Val 3)]"
proof -
  have "side_cond (fi_record_init :: 8 word fi_record) = []" by (simp add: fi_record_init_def)
  then show ?thesis
    by (simp add: ex_bare_get_interval ex_unevaluable_decompose linear_decompose_var)
qed

section \<open>The record after a failed match\<close>

lemma get_interval_ule_fail:
  assumes "get_interval_ule s c v (fi0, lf0) = (False, fi, lf)"
  shows "fi = fi0\<lparr>coeff := 1, src := src fi0 @ [c]\<rparr>"
proof -
  obtain ok1 a1 e1 b1 sc1 where d1:
    "linear_decompose s v (ule_lhs c) (side_cond fi0) = ((ok1, a1, e1, b1), sc1)"
    by (metis prod_cases4 surj_pair)
  obtain ok2 a2 e2 b2 sc2 where d2:
    "linear_decompose s v (ule_rhs c) sc1 = ((ok2, a2, e2, b2), sc2)"
    by (metis prod_cases4 surj_pair)
  note p = linear_decompose_prefix2[OF d1 d2]
  show ?thesis
  proof (cases "ok1 \<and> ok2 \<and> (a1 \<noteq> 0 \<or> a2 \<noteq> 0)")
    case True
    with get_interval_ule_chain(2)[of s v c fi0 a1 e1 b1 sc1 a2 e2 b2 sc2 lf0] d1 d2 assms
    show ?thesis by simp
  next
    case False
    then have "get_interval_ule s c v (fi0, lf0) =
       (False, backtrack_exit False (length (side_cond fi0))
                 (fi0\<lparr>coeff := 1, src := src fi0 @ [c], side_cond := sc2\<rparr>), lf0)"
      by (auto simp: get_interval_ule_def d1 d2 Let_def)
    with assms p show ?thesis by (simp add: backtrack_exit_def)
  qed
qed

lemma get_interval_umul_ovfl_fail:
  assumes "get_interval_umul_ovfl s c v (fi0, lf0) = (False, fi, lf)"
  shows "fi = fi0\<lparr>coeff := 1, src := src fi0 @ [c]\<rparr>"
proof -
  obtain ok1 a1 e1 b1 sc1 where d1:
    "linear_decompose s v (umul_p c) (side_cond fi0) = ((ok1, a1, e1, b1), sc1)"
    by (metis prod_cases4 surj_pair)
  obtain ok2 a2 e2 b2 sc2 where d2:
    "linear_decompose s v (umul_q c) sc1 = ((ok2, a2, e2, b2), sc2)"
    by (metis prod_cases4 surj_pair)
  note p = linear_decompose_prefix2[OF d1 d2]
  have b: "backtrack_exit False (length (side_cond fi0))
             (fi0\<lparr>coeff := 1, src := src fi0 @ [c], side_cond := sc2\<rparr>) =
           fi0\<lparr>coeff := 1, src := src fi0 @ [c]\<rparr>"
    using p by (simp add: backtrack_exit_def)
  show ?thesis
    using assms
    by (auto simp: get_interval_umul_ovfl_def d1 d2 b Let_def split: if_splits)
qed

text \<open>
  Claim C4, as amended.  Whenever \<open>get_interval\<close> returns false, the side-condition
  list of the record is back at what it was on entry, and the interval and the
  dependency list are untouched.  The other fields are not rolled back: \<open>bit_width\<close>
  is the size of the variable, and for a \<open>ule\<close> or \<open>umul_ovfl\<close> constraint the
  coefficient is 1 and the constraint has been appended to \<open>src\<close>.
\<close>

theorem get_interval_failure_state:
  assumes "get_interval s c v (fi0, lf0) = (False, fi, lf)"
  shows "side_cond fi = side_cond fi0 \<and> interval fi = interval fi0 \<and> deps fi = deps fi0
       \<and> bit_width fi = size_of s v
       \<and> (is_ule c \<or> is_umul_ovfl c \<longrightarrow> coeff fi = 1 \<and> src fi = src fi0 @ [c])
       \<and> (\<not> is_ule c \<and> \<not> is_umul_ovfl c \<longrightarrow> coeff fi = coeff fi0 \<and> src fi = src fi0)"
proof (cases "is_ule c")
  case True
  with assms have "get_interval_ule s c v (fi0\<lparr>bit_width := size_of s v\<rparr>, lf0) = (False, fi, lf)"
    by (simp add: get_interval_def)
  from get_interval_ule_fail[OF this] True show ?thesis by simp
next
  case False
  show ?thesis
  proof (cases "is_umul_ovfl c")
    case True
    with assms False
    have "get_interval_umul_ovfl s c v (fi0\<lparr>bit_width := size_of s v\<rparr>, lf0) = (False, fi, lf)"
      by (simp add: get_interval_def)
    from get_interval_umul_ovfl_fail[OF this] True show ?thesis by simp
  next
    case u: False
    with assms False show ?thesis by (auto simp: get_interval_def)
  qed
qed

lemma ex_const_le_get_interval:
  "get_interval ex_core ex_const_le 0 (fi_record_init, []) =
     (False,
      \<lparr>interval = Full, side_cond = [], src = [ex_const_le], deps = [], coeff = 1,
       bit_width = 8\<rparr>, [])"
  by (simp add: get_interval_def get_interval_ule_def linear_decompose_def subst_def
      backtrack_exit_def fi_record_init_def ex_const_le_def size_of_def Let_def)

theorem get_interval_failure_state_witness:
  "get_interval ex_core ex_const_le 0 (fi_record_init, []) =
     (False,
      \<lparr>interval = Full, side_cond = [], src = [ex_const_le], deps = [], coeff = 1,
       bit_width = 8\<rparr>, [])
   \<and> side_cond \<lparr>interval = Full, side_cond = [], src = [ex_const_le], deps = [], coeff = 1,
       bit_width = 8\<rparr> = side_cond (fi_record_init :: 8 word fi_record)
   \<and> is_ule ex_const_le"
  using get_interval_failure_state[OF ex_const_le_get_interval] ex_const_le_get_interval
  by (simp add: ex_const_le_def)

text \<open>
  The claim C4 as stated, that no field carries residue of the failed attempt, fails:
  for the constraint \<open>0 \<le> 5\<close>, which does not mention the variable, the matcher
  returns false and leaves a record that differs from the fresh one in \<open>src\<close>, in
  \<open>coeff\<close> and in \<open>bit_width\<close>.
\<close>

theorem get_interval_failure_residue_counterexample:
  "\<not> fst (get_interval ex_core ex_const_le 0 (fi_record_init, []))
   \<and> fst (snd (get_interval ex_core ex_const_le 0 (fi_record_init, []))) \<noteq> fi_record_init
   \<and> src (fst (snd (get_interval ex_core ex_const_le 0 (fi_record_init, [])))) = [ex_const_le]
   \<and> src (fi_record_init :: 8 word fi_record) = []
   \<and> coeff (fst (snd (get_interval ex_core ex_const_le 0 (fi_record_init, [])))) = 1
   \<and> coeff (fi_record_init :: 8 word fi_record) = 0
   \<and> bit_width (fst (snd (get_interval ex_core ex_const_le 0 (fi_record_init, [])))) = 8
   \<and> bit_width (fi_record_init :: 8 word fi_record) = 0"
proof -
  have "src (fi_record_init :: 8 word fi_record) = []"
       "coeff (fi_record_init :: 8 word fi_record) = 0"
       "bit_width (fi_record_init :: 8 word fi_record) = 0"
       "\<lparr>interval = Full, side_cond = [], src = [ex_const_le], deps = [], coeff = 1,
         bit_width = 8\<rparr> \<noteq> fi_record_init"
    by (simp_all add: fi_record_init_def)
  then show ?thesis by (simp add: ex_const_le_get_interval)
qed

section \<open>Soundness of the matcher\<close>

lemma get_interval_ule_sound:
  fixes s :: "'a::len word core"
  assumes r: "get_interval_ule s c v (fi0, lf0) = (True, fi, lf)"
      and u: "is_ule c"
      and cf: "coeff fi \<noteq> - 1"
      and ag: "agrees (assignment s) \<sigma>"
      and nc: "\<not> currently_contains (interval fi) (uint (word_of_int (coeff fi) * w))"
  shows "holds (\<sigma>(v := w)) c"
proof -
  obtain ok1 a1 e1 b1 sc1 where d1:
    "linear_decompose s v (ule_lhs c) (side_cond fi0) = ((ok1, a1, e1, b1), sc1)"
    by (metis prod_cases4 surj_pair)
  obtain ok2 a2 e2 b2 sc2 where d2:
    "linear_decompose s v (ule_rhs c) sc1 = ((ok2, a2, e2, b2), sc2)"
    by (metis prod_cases4 surj_pair)
  from r have ok: "ok1" "ok2" "a1 \<noteq> 0 \<or> a2 \<noteq> 0"
    by (auto simp: get_interval_ule_def d1 d2 Let_def split: if_splits)
  note d1' = d1[unfolded ok(1)[THEN eqTrueI]] and d2' = d2[unfolded ok(2)[THEN eqTrueI]]
  from decompose_eval[OF d1' ag, of w] obtain w1 where
    w1: "b1 = Val w1" "eval (\<sigma>(v := w)) (ule_lhs c) = word_of_int a1 * w + w1"
    and a1: "0 \<le> a1" "a1 < 2 ^ LENGTH('a)" by blast
  from decompose_eval[OF d2' ag, of w] obtain w2 where
    w2: "b2 = Val w2" "eval (\<sigma>(v := w)) (ule_rhs c) = word_of_int a2 * w + w2"
    and a2: "0 \<le> a2" "a2 < 2 ^ LENGTH('a)" by blast
  let ?fi1 = "fi0\<lparr>coeff := 1, src := src fi0 @ [c], side_cond := sc2\<rparr>"
  let ?ms = "[match_zero c a1 b1 e1 a2 b2 e2, match_max c a1 b1 e1 a2 b2 e2,
              match_linear1 c a1 b1 e1 a2 b2 e2, match_linear2 c a1 b1 e1 a2 b2 e2,
              match_linear3 c a1 b1 e1 a2 b2 e2, match_linear4 c a1 b1 e1 a2 b2 e2]"
  from get_interval_ule_chain(1)[OF d1' d2' ok(3)] r
  have fm: "first_match ?ms (?fi1, lf0) = (True, fi, lf)" by simp
  have "\<exists>m \<in> set ?ms. \<exists>l. m (fst (?fi1, lf0), l) = (True, fi, lf)"
    by (rule first_match_success[OF fm]) (auto simp: match_fail_keeps)
  then obtain m l where m: "m \<in> set ?ms" "m (?fi1, l) = (True, fi, lf)" by auto
  have body: "(word_of_int a1 * w + w1 \<le> word_of_int a2 * w + w2) \<noteq> sign c"
  proof -
    from m(1) consider "m = match_zero c a1 b1 e1 a2 b2 e2" | "m = match_max c a1 b1 e1 a2 b2 e2"
      | "m = match_linear1 c a1 b1 e1 a2 b2 e2" | "m = match_linear2 c a1 b1 e1 a2 b2 e2"
      | "m = match_linear3 c a1 b1 e1 a2 b2 e2" | "m = match_linear4 c a1 b1 e1 a2 b2 e2"
      by auto
    then show ?thesis
    proof cases
      case 1
      with m(2) w1(1) w2(1)
      have "match_zero c a1 (Val w1) e1 a2 (Val w2) e2 (?fi1, l) = (True, fi, lf)" by simp
      then show ?thesis by (rule match_zero_sound[OF _ nc])
    next
      case 2
      with m(2) w1(1) w2(1)
      have "match_max c a1 (Val w1) e1 a2 (Val w2) e2 (?fi1, l) = (True, fi, lf)" by simp
      then show ?thesis by (rule match_max_sound[OF _ nc])
    next
      case 3
      with m(2) w1(1) w2(1)
      have "match_linear1 c a1 (Val w1) e1 a2 (Val w2) e2 (?fi1, l) = (True, fi, lf)" by simp
      then show ?thesis by (rule match_linear1_sound[OF _ a1 nc])
    next
      case 4
      with m(2) w1(1) w2(1)
      have "match_linear2 c a1 (Val w1) e1 a2 (Val w2) e2 (?fi1, l) = (True, fi, lf)" by simp
      then show ?thesis by (rule match_linear2_sound[OF _ a2 nc])
    next
      case 5
      with m(2) w1(1) w2(1)
      have "match_linear3 c a1 (Val w1) e1 a2 (Val w2) e2 (?fi1, l) = (True, fi, lf)" by simp
      then show ?thesis by (rule match_linear3_sound[OF _ a1 nc])
    next
      case 6
      with m(2) cf match_linear4_coeff show ?thesis by blast
    qed
  qed
  obtain sg p q where c: "c = SC sg (Ule p q)"
    using u by (cases c rule: is_ule.cases) auto
  with body w1(2) w2(2) show ?thesis by (simp add: holds_def)
qed

lemma get_interval_umul_ovfl_sound:
  fixes s :: "'a::len word core"
  assumes r: "get_interval_umul_ovfl s c v (fi0, lf0) = (True, fi, lf)"
      and u: "is_umul_ovfl c"
      and ok: "fst (fst (linear_decompose s v (umul_p c) []))"
              "fst (fst (linear_decompose s v (umul_q c) []))"
      and ag: "agrees (assignment s) \<sigma>"
      and nc: "\<not> currently_contains (interval fi) (uint (word_of_int (coeff fi) * w))"
  shows "holds (\<sigma>(v := w)) c"
proof -
  obtain a1 e1 b1 sc1 where d1:
    "linear_decompose s v (umul_p c) (side_cond fi0) = ((True, a1, e1, b1), sc1)"
    using ok(1) linear_decompose_fst[of s v "umul_p c" "side_cond fi0" "[]"]
    by (metis (full_types) prod.collapse)
  obtain a2 e2 b2 sc2 where d2:
    "linear_decompose s v (umul_q c) sc1 = ((True, a2, e2, b2), sc2)"
    using ok(2) linear_decompose_fst[of s v "umul_q c" sc1 "[]"]
    by (metis (full_types) prod.collapse)
  from decompose_eval[OF d1 ag, of w] obtain w1 where
    w1: "b1 = Val w1" "eval (\<sigma>(v := w)) (umul_p c) = word_of_int a1 * w + w1" by blast
  from decompose_eval[OF d2 ag, of w] obtain w2 where
    w2: "b2 = Val w2" "eval (\<sigma>(v := w)) (umul_q c) = word_of_int a2 * w + w2" by blast
  define bound :: int where "bound = 2 ^ LENGTH('a) - 1"
  define x where "x = uint w"
  have xb: "0 \<le> x" by (simp add: x_def)
  have shape: "\<exists>b. uint (word_of_int a1 * w + w1) * uint (word_of_int a2 * w + w2) = x * b
          \<and> coeff fi = 1
          \<and> ((\<not> sign c \<and> b \<le> 1 \<and> interval fi = Full)
             \<or> (\<not> sign c \<and> 1 < b \<and>
                 interval fi = Proper (mk_val 0) 0 (mk_val (bound div b + 1)) (bound div b + 1))
             \<or> (sign c \<and> 1 < b \<and>
                 interval fi = Proper (mk_val (bound div b + 1)) (bound div b + 1) (mk_val 0) 0))"
  proof (cases "a2 = 1 \<and> a1 = 0")
    case True
    with r show ?thesis
      by (intro exI[of _ "uint w1"])
         (auto simp: get_interval_umul_ovfl_def d1 d2 w1 w2 Let_def is_zero_def is_positive_def
            max_value_def bound_def x_def mult.commute split: if_splits)
  next
    case False
    with r show ?thesis
      by (intro exI[of _ "uint w2"])
         (auto simp: get_interval_umul_ovfl_def d1 d2 w1 w2 Let_def is_zero_def is_positive_def
            max_value_def bound_def x_def split: if_splits)
  qed
  then obtain b where
    pr: "uint (word_of_int a1 * w + w1) * uint (word_of_int a2 * w + w2) = x * b"
    and cf: "coeff fi = 1"
    and cs: "(\<not> sign c \<and> b \<le> 1 \<and> interval fi = Full)
             \<or> (\<not> sign c \<and> 1 < b \<and>
                 interval fi = Proper (mk_val 0) 0 (mk_val (bound div b + 1)) (bound div b + 1))
             \<or> (sign c \<and> 1 < b \<and>
                 interval fi = Proper (mk_val (bound div b + 1)) (bound div b + 1) (mk_val 0) 0)"
    by blast
  from nc cf have nc': "\<not> currently_contains (interval fi) x" by (simp add: x_def)
  have "(2 ^ LENGTH('a) \<le> x * b) \<noteq> sign c"
    using cs
  proof (elim disjE conjE)
    assume "interval fi = Full"
    with nc' show ?thesis by simp
  next
    assume a: "\<not> sign c" "1 < b"
      "interval fi = Proper (mk_val 0) 0 (mk_val (bound div b + 1)) (bound div b + 1)"
    with nc' xb have "bound div b + 1 \<le> x" by (auto split: if_splits)
    from ovfl_threshold_pos[OF a(2) this] a(1) show ?thesis by (simp add: bound_def)
  next
    assume a: "sign c" "1 < b"
      "interval fi = Proper (mk_val (bound div b + 1)) (bound div b + 1) (mk_val 0) 0"
    have "0 \<le> bound" by (simp add: bound_def)
    with a(2) have "0 \<le> bound div b" by (simp add: pos_imp_zdiv_nonneg_iff)
    with a nc' have "x < bound div b + 1" by (auto split: if_splits)
    from ovfl_threshold_neg[OF a(2) this] a(1) show ?thesis by (simp add: bound_def)
  qed
  moreover obtain sg p q where c: "c = SC sg (Umul_ovfl p q)"
    using u by (cases c rule: is_umul_ovfl.cases) auto
  ultimately show ?thesis using pr w1(2) w2(2) by (simp add: holds_def)
qed

text \<open>
  Claim C1, as amended.  Let \<open>get_interval\<close> return a record for a \<open>ule\<close> or
  \<open>umul_ovfl\<close> constraint and a variable \<open>v\<close>, with a coefficient other than the mark
  \<open>-1\<close> of \<open>match_linear4\<close> and, for \<open>umul_ovfl\<close>, with both operands decomposing
  linearly.  Let the model extend the current partial assignment and satisfy all emitted
  side conditions.  Then every value \<open>w\<close> for which \<open>coeff * w mod 2^N\<close> lies outside the
  returned interval makes the constraint true when it is substituted for \<open>v\<close>.
\<close>

theorem get_interval_sound:
  fixes s :: "'a::len word core"
  assumes r: "get_interval s c v (fi0, lf0) = (True, fi, lf)"
      and cf: "coeff fi \<noteq> - 1"
      and ok: "is_umul_ovfl c \<longrightarrow>
                 fst (fst (linear_decompose s v (umul_p c) [])) \<and>
                 fst (fst (linear_decompose s v (umul_q c) []))"
      and ag: "agrees (assignment s) \<sigma>"
      and sc: "\<forall>d \<in> set (side_cond fi). holds (\<sigma>(v := w)) d"
      and nc: "\<not> currently_contains (interval fi) (uint (word_of_int (coeff fi) * w))"
  shows "holds (\<sigma>(v := w)) c"
proof (cases "is_ule c")
  case True
  with r have "get_interval_ule s c v (fi0\<lparr>bit_width := size_of s v\<rparr>, lf0) = (True, fi, lf)"
    by (simp add: get_interval_def)
  from get_interval_ule_sound[OF this True cf ag nc] show ?thesis .
next
  case False
  with r have u: "is_umul_ovfl c"
    by (auto simp: get_interval_def Let_def split: if_splits)
  with r False
  have "get_interval_umul_ovfl s c v (fi0\<lparr>bit_width := size_of s v\<rparr>, lf0) = (True, fi, lf)"
    by (simp add: get_interval_def)
  from get_interval_umul_ovfl_sound[OF this u _ _ ag nc] ok u show ?thesis by blast
qed

lemma ex_agrees: "agrees (assignment ex_core) ex_model"
  by (simp add: agrees_def ex_core_def ex_model_def)

lemma ex_le5_get_interval:
  "get_interval ex_core ex_le5 0 (fi_record_init, []) =
     (True,
      \<lparr>interval = Proper (Val 6) 6 (Val 0) 0, side_cond = [], src = [ex_le5], deps = [],
       coeff = 1, bit_width = 8\<rparr>,
      ''match_linear1'')"
  by (simp add: get_interval_def get_interval_ule_def linear_decompose_def subst_def
      match_zero_def match_max_def match_linear1_def to_interval_def
      add_non_unit_side_conds_def push_eq_def is_zero_def mk_val_def pdd_sub_def two_to_N_def
      is_positive_def ex_le5_def pdd_var_def fi_record_init_def size_of_def Let_def)

lemma ex_ovfl3_get_interval:
  "get_interval ex_core (SC False (Umul_ovfl (pdd_var 0) (Node 1 (Val 0) (Val 1)))) 0
     (fi_record_init, []) =
     (True,
      \<lparr>interval = Proper (Val 0) 0 (Val 86) 86,
       side_cond = [cs_ule (Node 1 (Val 0) (Val 1)) (Val 3)],
       src = [SC False (Umul_ovfl (pdd_var 0) (Node 1 (Val 0) (Val 1)))],
       deps = [], coeff = 1, bit_width = 8\<rparr>, [])"
  by (simp add: get_interval_def get_interval_umul_ovfl_def linear_decompose_def pdd_var_def
      subst_def ex_core_def is_zero_def is_positive_def max_value_def size_of_def
      fi_record_init_def mk_val_def cs_ule_def Let_def)

lemma ex_square_get_interval:
  "get_interval ex_core (SC False (Umul_ovfl (pdd_var 0) ex_square)) 0 (fi_record_init, []) =
     (True,
      \<lparr>interval = Proper (Val 0) 0 (Val 2) 2, side_cond = [],
       src = [SC False (Umul_ovfl (pdd_var 0) ex_square)], deps = [], coeff = 1,
       bit_width = 8\<rparr>, [])"
proof -
  have "linear_decompose ex_core 0 ex_square sc = ((False, 0, Val 0, Val 0), sc)" for sc
    by (simp add: linear_decompose_def ex_square_def)
  then show ?thesis
    by (simp add: get_interval_def get_interval_umul_ovfl_def linear_decompose_var
        fi_record_init_def is_zero_def is_positive_def mk_val_def size_of_def Let_def)
qed

lemma ex_double_le5_get_interval:
  "get_interval ex_core ex_double_le5 0 (fi_record_init, []) =
     (True,
      \<lparr>interval = Proper (Val 6) 6 (Val 0) 0, side_cond = [], src = [ex_double_le5], deps = [],
       coeff = 2, bit_width = 8\<rparr>,
      ''match_linear1'')"
  by (simp add: get_interval_def get_interval_ule_def linear_decompose_def subst_def
      match_zero_def match_max_def match_linear1_def to_interval_def
      add_non_unit_side_conds_def push_eq_def is_zero_def mk_val_def pdd_sub_def two_to_N_def
      is_positive_def ex_double_le5_def fi_record_init_def size_of_def Let_def)

theorem get_interval_sound_witness:
  "get_interval ex_core ex_le5 0 (fi_record_init, []) =
     (True,
      \<lparr>interval = Proper (Val 6) 6 (Val 0) 0, side_cond = [], src = [ex_le5], deps = [],
       coeff = 1, bit_width = 8\<rparr>,
      ''match_linear1'')
   \<and> agrees (assignment ex_core) ex_model
   \<and> \<not> currently_contains (Proper (Val 6 :: 8 word pdd) 6 (Val 0) 0) (uint (word_of_int 1 * (4 :: 8 word)))
   \<and> holds (ex_model(0 := 4)) ex_le5
   \<and> get_interval ex_core (SC False (Umul_ovfl (pdd_var 0) (Node 1 (Val 0) (Val 1)))) 0
        (fi_record_init, []) =
       (True,
        \<lparr>interval = Proper (Val 0) 0 (Val 86) 86,
         side_cond = [cs_ule (Node 1 (Val 0) (Val 1)) (Val 3)],
         src = [SC False (Umul_ovfl (pdd_var 0) (Node 1 (Val 0) (Val 1)))],
         deps = [], coeff = 1, bit_width = 8\<rparr>, [])
   \<and> fst (fst (linear_decompose ex_core 0 (pdd_var 0) []))
   \<and> fst (fst (linear_decompose ex_core 0 (Node 1 (Val 0) (Val 1)) []))
   \<and> holds (ex_model(0 := 100)) (cs_ule (Node 1 (Val 0) (Val 1)) (Val 3))
   \<and> \<not> currently_contains (Proper (Val 0 :: 8 word pdd) 0 (Val 86) 86) (uint (word_of_int 1 * (100 :: 8 word)))
   \<and> holds (ex_model(0 := 100)) (SC False (Umul_ovfl (pdd_var 0) (Node 1 (Val 0) (Val 1))))"
proof -
  let ?c = "SC False (Umul_ovfl (pdd_var 0) (Node 1 (Val 0) (Val 1))) :: 8 word signed_constraint"
  have a1: "\<not> currently_contains (Proper (Val 6 :: 8 word pdd) 6 (Val 0) 0) (uint (word_of_int 1 * (4 :: 8 word)))"
    by simp
  have a2: "\<not> currently_contains (Proper (Val 0 :: 8 word pdd) 0 (Val 86) 86) (uint (word_of_int 1 * (100 :: 8 word)))"
    by simp
  have d1: "fst (fst (linear_decompose ex_core 0 (pdd_var 0) []))"
    by (simp add: linear_decompose_var)
  have d2: "fst (fst (linear_decompose ex_core 0 (Node 1 (Val 0) (Val 1)) []))"
    by (simp add: linear_decompose_def subst_def ex_core_def Let_def)
  have s2: "holds (ex_model(0 := 100)) (cs_ule (Node 1 (Val 0) (Val 1)) (Val 3))"
    by (simp add: holds_def cs_ule_def ex_model_def)
  have r1: "holds (ex_model(0 := 4)) ex_le5"
    by (rule get_interval_sound[OF ex_le5_get_interval _ _ ex_agrees])
       (simp_all add: ex_le5_def)
  have r2: "holds (ex_model(0 := 100)) ?c"
    by (rule get_interval_sound[OF ex_ovfl3_get_interval _ _ ex_agrees])
       (use d1 d2 s2 in simp_all)
  from ex_le5_get_interval ex_agrees a1 r1 ex_ovfl3_get_interval d1 d2 s2 a2 r2
  show ?thesis by blast
qed

text \<open>
  The claim C1 as stated fails in three ways.  For \<open>umul_ovfl(v0, v0 * v0)\<close> the second
  operand does not decompose, the matcher returns \<open>[0, 2)\<close> with no side condition, and
  the value 2 lies outside the interval although \<open>2 * 4\<close> does not overflow 8 bits.  For
  \<open>2 * v0 \<le> 5\<close> the matcher returns \<open>[6, 0)\<close> with coefficient 2: the interval bounds
  \<open>2 * v0\<close>, not \<open>v0\<close>, and the value 3 lies outside it although \<open>2 * 3 > 5\<close>.  For
  \<open>umul_ovfl(v0, v1)\<close> with \<open>v1 = 3\<close> assigned the matcher returns \<open>[0, 86)\<close> with the
  side condition \<open>v1 \<le> 3\<close>; a model with \<open>v1 = 2\<close> satisfies the side condition without
  extending the assignment, and the value 86 lies outside the interval although
  \<open>86 * 2\<close> does not overflow.
\<close>

theorem get_interval_exactness_counterexample:
  "get_interval ex_core (SC False (Umul_ovfl (pdd_var 0) ex_square)) 0 (fi_record_init, []) =
     (True,
      \<lparr>interval = Proper (Val 0) 0 (Val 2) 2, side_cond = [],
       src = [SC False (Umul_ovfl (pdd_var 0) ex_square)], deps = [], coeff = 1,
       bit_width = 8\<rparr>, [])
   \<and> agrees (assignment ex_core) ex_model
   \<and> \<not> currently_contains (Proper (Val 0 :: 8 word pdd) 0 (Val 2) 2) (uint (2 :: 8 word))
   \<and> \<not> holds (ex_model(0 := 2)) (SC False (Umul_ovfl (pdd_var 0) ex_square))
   \<and> get_interval ex_core ex_double_le5 0 (fi_record_init, []) =
     (True,
      \<lparr>interval = Proper (Val 6) 6 (Val 0) 0, side_cond = [], src = [ex_double_le5], deps = [],
       coeff = 2, bit_width = 8\<rparr>,
      ''match_linear1'')
   \<and> \<not> currently_contains (Proper (Val 6 :: 8 word pdd) 6 (Val 0) 0) (uint (3 :: 8 word))
   \<and> \<not> holds (ex_model(0 := 3)) ex_double_le5
   \<and> get_interval ex_core (SC False (Umul_ovfl (pdd_var 0) (Node 1 (Val 0) (Val 1)))) 0
        (fi_record_init, []) =
       (True,
        \<lparr>interval = Proper (Val 0) 0 (Val 86) 86,
         side_cond = [cs_ule (Node 1 (Val 0) (Val 1)) (Val 3)],
         src = [SC False (Umul_ovfl (pdd_var 0) (Node 1 (Val 0) (Val 1)))],
         deps = [], coeff = 1, bit_width = 8\<rparr>, [])
   \<and> holds ((\<lambda>_. 2)(0 := 86)) (cs_ule (Node 1 (Val 0) (Val 1)) (Val 3 :: 8 word pdd))
   \<and> \<not> currently_contains (Proper (Val 0 :: 8 word pdd) 0 (Val 86) 86) (uint (86 :: 8 word))
   \<and> \<not> holds ((\<lambda>_. 2)(0 := 86))
         (SC False (Umul_ovfl (pdd_var 0) (Node 1 (Val 0) (Val 1) :: 8 word pdd)))"
proof -
  have 1: "\<not> currently_contains (Proper (Val 0 :: 8 word pdd) 0 (Val 2) 2) (uint (2 :: 8 word))"
    by simp
  have 2: "\<not> holds (ex_model(0 := 2)) (SC False (Umul_ovfl (pdd_var 0) ex_square))"
    by (simp add: holds_def pdd_var_def ex_square_def)
  have 3: "\<not> currently_contains (Proper (Val 6 :: 8 word pdd) 6 (Val 0) 0) (uint (3 :: 8 word))"
    by simp
  have 4: "\<not> holds (ex_model(0 := 3)) ex_double_le5"
    by (simp add: holds_def ex_double_le5_def)
  have 5: "holds ((\<lambda>_. 2)(0 := 86)) (cs_ule (Node 1 (Val 0) (Val 1)) (Val 3 :: 8 word pdd))"
    by (simp add: holds_def cs_ule_def)
  have 6: "\<not> currently_contains (Proper (Val 0 :: 8 word pdd) 0 (Val 86) 86) (uint (86 :: 8 word))"
    by simp
  have 7: "\<not> holds ((\<lambda>_. 2)(0 := 86))
         (SC False (Umul_ovfl (pdd_var 0) (Node 1 (Val 0) (Val 1) :: 8 word pdd)))"
    by (simp add: holds_def pdd_var_def)
  from ex_square_get_interval ex_agrees 1 2 ex_double_le5_get_interval 3 4
    ex_ovfl3_get_interval 5 6 7
  show ?thesis by blast
qed

section \<open>Saturation rules\<close>

text \<open>
  Claim C8.  For a non-strict inequality \<open>p \<le> q\<close> that mentions the variable \<open>x\<close> on
  one of its sides, if the unsat core contains a positive \<open>ule\<close> constraint that is
  syntactically the mirror inequality \<open>q \<le> p\<close>, then \<open>propagate_infer_equality\<close>
  propagates the constraint \<open>p - q = 0\<close>, which holds exactly when \<open>p = q\<close>, and
  justifies it by a mirror constraint of the core and the inequality itself.
\<close>

theorem propagate_infer_equality_mirror:
  assumes "\<not> ineq_strict i"
      and "degree x (ineq_lhs i) \<noteq> 0 \<or> degree x (ineq_rhs i) \<noteq> 0"
      and "cid \<in> set (unsat_core s)"
      and "get_constraint s cid = SC False (Ule (ineq_rhs i) (ineq_lhs i))"
  shows "\<exists>cid'. cid' \<in> set (unsat_core s)
           \<and> get_constraint s cid' = SC False (Ule (ineq_rhs i) (ineq_lhs i))
           \<and> propagated (propagate_infer_equality s x i st) =
               propagated st @ [(core_eq (ineq_lhs i) (ineq_rhs i), [cid', ineq_id i])]
           \<and> (\<forall>\<sigma>. holds \<sigma> (core_eq (ineq_lhs i) (ineq_rhs i)) \<longleftrightarrow>
                    eval \<sigma> (ineq_lhs i) = eval \<sigma> (ineq_rhs i))"
proof -
  let ?P = "\<lambda>sc. is_ule sc \<and> \<not> sign sc \<and> ule_lhs sc = ineq_rhs i \<and> ule_rhs sc = ineq_lhs i"
  have "?P (get_constraint s cid)" using assms(4) by simp
  with assms(3) have "\<exists>x\<in>set (unsat_core s). ?P (get_constraint s x)" by blast
  then have "match_core s ?P \<noteq> None"
    unfolding match_core_def by (auto simp: find_None_iff)
  then obtain cid' where f: "match_core s ?P = Some cid'" by blast
  then have mem: "cid' \<in> set (unsat_core s)" and P: "?P (get_constraint s cid')"
    unfolding match_core_def by (auto simp: find_Some_iff)
  have shape: "get_constraint s cid' = SC False (Ule (ineq_rhs i) (ineq_lhs i))"
  proof (cases "get_constraint s cid'")
    case (SC sg c)
    with P show ?thesis by (cases c) auto
  qed
  show ?thesis
    using assms(1,2) f mem shape
    by (auto simp: propagate_infer_equality_def set_rule_def Let_def side_eq_holds)
qed

theorem propagate_infer_equality_mirror_witness:
  "\<not> ineq_strict ex_ineq
   \<and> degree 0 (ineq_lhs ex_ineq) = 1
   \<and> 7 \<in> set (unsat_core ex_core)
   \<and> get_constraint ex_core 7 = SC False (Ule (ineq_rhs ex_ineq) (ineq_lhs ex_ineq))
   \<and> propagated (propagate_infer_equality ex_core 0 ex_ineq ex_saturation) =
       [(core_eq (ineq_lhs ex_ineq) (ineq_rhs ex_ineq), [7, 9])]"
proof -
  have h1: "\<not> ineq_strict ex_ineq" by (simp add: ex_ineq_def)
  have h2: "degree 0 (ineq_lhs ex_ineq) \<noteq> 0 \<or> degree 0 (ineq_rhs ex_ineq) \<noteq> 0"
    by (simp add: ex_ineq_def)
  have h3: "7 \<in> set (unsat_core ex_core)" by (simp add: ex_core_def)
  have h4: "get_constraint ex_core 7 = SC False (Ule (ineq_rhs ex_ineq) (ineq_lhs ex_ineq))"
    by (simp add: ex_core_def ex_ineq_def get_constraint_def)
  have u: "cid' = 7"
    if "cid' \<in> set (unsat_core ex_core)"
       "get_constraint ex_core cid' = SC False (Ule (ineq_rhs ex_ineq) (ineq_lhs ex_ineq))"
    for cid'
    using that by (auto simp: ex_core_def get_constraint_def)
  from propagate_infer_equality_mirror[OF h1 h2 h3 h4, of ex_saturation]
  obtain cid' where c: "cid' \<in> set (unsat_core ex_core)"
      "get_constraint ex_core cid' = SC False (Ule (ineq_rhs ex_ineq) (ineq_lhs ex_ineq))"
      "propagated (propagate_infer_equality ex_core 0 ex_ineq ex_saturation) =
         propagated ex_saturation @ [(core_eq (ineq_lhs ex_ineq) (ineq_rhs ex_ineq), [cid', ineq_id ex_ineq])]"
    by blast
  from u[OF c(1,2)] c(3) have
    "propagated (propagate_infer_equality ex_core 0 ex_ineq ex_saturation) =
       [(core_eq (ineq_lhs ex_ineq) (ineq_rhs ex_ineq), [7, 9])]"
    by (simp add: ex_saturation_def ex_ineq_def)
  moreover have "degree 0 (ineq_lhs ex_ineq) = 1" by (simp add: ex_ineq_def)
  ultimately show ?thesis using h1 h3 h4 by blast
qed

text \<open>
  Claim C10.  When \<open>try_ugt_x\<close> matches an inequality \<open>y * x \<le> z * x\<close> or
  \<open>y * x < z * x\<close> on the pivot \<open>x\<close>, it adds one non-redundant clause under the
  dependency of the inequality: for the non-strict form the clause is
  \<open>overflow(x, y) \<or> x = 0 \<or> y \<le> z\<close>, with the disjunct \<open>x = 0\<close>; for the strict form it
  is \<open>overflow(x, y) \<or> y < z\<close>, without that disjunct.
\<close>

theorem try_ugt_x_clause:
  assumes "is_xY_l_xZ v i = Some (y, z)"
  shows "(\<not> ineq_strict i \<longrightarrow>
            clauses (try_ugt_x s v i st) = clauses st @
              [(ugt_x_nonstrict_name,
                [Dep (ineq_dep i), Con (cs_umul_ovfl (pdd_var v) y), Con (cs_eq (pdd_var v)),
                 Con (cs_ule y z)],
                False)])
       \<and> (ineq_strict i \<longrightarrow>
            clauses (try_ugt_x s v i st) = clauses st @
              [(ugt_x_strict_name,
                [Dep (ineq_dep i), Con (cs_umul_ovfl (pdd_var v) y), Con (cs_ult y z)],
                False)])"
  using assms by (simp add: try_ugt_x_def add_clause_def Let_def)

theorem try_ugt_x_clause_witness:
  "is_xY_l_xZ 0 (ex_mul_ineq False) = Some (Node 1 (Val 0) (Val 1), Node 2 (Val 0) (Val 1))
   \<and> \<not> ineq_strict (ex_mul_ineq False)
   \<and> clauses (try_ugt_x ex_core 0 (ex_mul_ineq False) ex_saturation) =
       [(ugt_x_nonstrict_name,
         [Dep 2, Con (cs_umul_ovfl (pdd_var 0) (Node 1 (Val 0) (Val 1))), Con (cs_eq (pdd_var 0)),
          Con (cs_ule (Node 1 (Val 0) (Val 1)) (Node 2 (Val 0) (Val 1)))], False)]
   \<and> is_xY_l_xZ 0 (ex_mul_ineq True) = Some (Node 1 (Val 0) (Val 1), Node 2 (Val 0) (Val 1))
   \<and> ineq_strict (ex_mul_ineq True)
   \<and> clauses (try_ugt_x ex_core 0 (ex_mul_ineq True) ex_saturation) =
       [(ugt_x_strict_name,
         [Dep 2, Con (cs_umul_ovfl (pdd_var 0) (Node 1 (Val 0) (Val 1))),
          Con (cs_ult (Node 1 (Val 0) (Val 1)) (Node 2 (Val 0) (Val 1)))], False)]"
proof -
  have h: "is_xY_l_xZ 0 (ex_mul_ineq b) = Some (Node 1 (Val 0) (Val 1), Node 2 (Val 0) (Val 1))"
    for b
    by (simp add: is_xY_l_xZ_def is_xY_def ex_mul_ineq_def mk_node_def)
  have n: "\<not> ineq_strict (ex_mul_ineq False)" and t: "ineq_strict (ex_mul_ineq True)"
    by (simp_all add: ex_mul_ineq_def)
  have d: "ineq_dep (ex_mul_ineq b) = 2" for b by (simp add: ex_mul_ineq_def)
  have e: "clauses ex_saturation = []" by (simp add: ex_saturation_def)
  from try_ugt_x_clause[OF h [of False], of ex_core ex_saturation]
       try_ugt_x_clause[OF h [of True], of ex_core ex_saturation] h n t
  show ?thesis by (simp add: d e)
qed

end
